theory Spec2Isabelle
  imports Complex_Main
begin

section \<open>The decimal engine\<close>

text \<open>
  \<^verbatim>\<open>PiBenchmark.py\<close> does all its arithmetic with Python's \<^verbatim>\<open>decimal\<close> module, which the
  program imports and does not define.  This section models the part of that module the
  program uses: finite decimal numbers, the operations \<^verbatim>\<open>+ - * /\<close>, unary plus,
  \<^verbatim>\<open>abs\<close> and \<^verbatim>\<open><\<close>, rounding to the precision of the current context with
  \<^verbatim>\<open>ROUND_HALF_EVEN\<close> (the rounding of the default context, which the program never
  changes), and the two trapped conditions of a division by zero.

  Modelling assumptions, stated once: the exponent range of the context
  (\<^verbatim>\<open>Emin\<close>, \<^verbatim>\<open>Emax\<close>) and the upper limit of the precision are taken to be unbounded,
  as in the specification's "arbitrary-precision" engine; infinities and NaNs cannot arise
  (the default context traps the operations that would produce them) and are left out.
\<close>

datatype error = ValueError | InvalidOperation | DivisionByZero | ZeroDivisionError

text \<open>A finite \<^verbatim>\<open>Decimal\<close>: the fields \<^verbatim>\<open>_sign\<close> (True is negative), \<^verbatim>\<open>_int\<close> (the
  coefficient, a string of digits in Python) and \<^verbatim>\<open>_exp\<close>.\<close>

record decimal =
  d_sign :: bool
  d_int :: nat
  d_exp :: int

text \<open>The context returned by \<^verbatim>\<open>getcontext()\<close>; the program reads and writes only
  its precision.\<close>

record Context =
  prec :: nat

definition default_context :: Context where
  "default_context = \<lparr>prec = 28\<rparr>"

text \<open>\<^verbatim>\<open>getcontext().prec = p\<close>: the setter refuses a precision below 1.\<close>

definition set_prec :: "int \<Rightarrow> Context \<Rightarrow> error + Context" where
  "set_prec p ctx = (if 1 \<le> p then Inr (ctx\<lparr>prec := nat p\<rparr>) else Inl ValueError)"

text \<open>\<^verbatim>\<open>len(str(n))\<close> for a coefficient.\<close>

fun ndigits :: "nat \<Rightarrow> nat" where
  "ndigits n = (if n < 10 then 1 else Suc (ndigits (n div 10)))"

declare ndigits.simps [simp del]

text \<open>The number a decimal denotes.\<close>

definition val :: "decimal \<Rightarrow> rat" where
  "val d = (if d_sign d then - 1 else 1) * of_nat (d_int d) * 10 powi (d_exp d)"

text \<open>\<^verbatim>\<open>Decimal._fix\<close>: round to the precision of the context.  A coefficient with more than
  \<^verbatim>\<open>prec\<close> digits loses its last \<^verbatim>\<open>k\<close> digits; the kept part goes up when the dropped
  part is above one half, or is exactly one half and the kept part is odd
  (\<^verbatim>\<open>_round_half_even\<close>); a carry into a new digit drops one more digit.\<close>

definition Decimal_fix :: "Context \<Rightarrow> decimal \<Rightarrow> decimal" where
  "Decimal_fix ctx d =
     (if d_int d = 0 then d
      else if ndigits (d_int d) \<le> prec ctx then d
      else
        let k = ndigits (d_int d) - prec ctx;
            q = d_int d div 10 ^ k;
            r = d_int d mod 10 ^ k;
            changed = (10 ^ k < 2 * r \<or> (2 * r = 10 ^ k \<and> odd q));
            coeff = (if changed then q + 1 else q)
        in if prec ctx < ndigits coeff
           then \<lparr>d_sign = d_sign d, d_int = coeff div 10, d_exp = d_exp d + int k + 1\<rparr>
           else \<lparr>d_sign = d_sign d, d_int = coeff, d_exp = d_exp d + int k\<rparr>)"

text \<open>\<^verbatim>\<open>Decimal(n)\<close> for a Python int, and \<^verbatim>\<open>Decimal('1e-%d' % scale)\<close>: both are exact,
  the constructor does not round.\<close>

definition Decimal_of_int :: "int \<Rightarrow> decimal" where
  "Decimal_of_int n = \<lparr>d_sign = (n < 0), d_int = nat \<bar>n\<bar>, d_exp = 0\<rparr>"

definition Decimal_1e_minus :: "int \<Rightarrow> decimal" where
  "Decimal_1e_minus scale = \<lparr>d_sign = False, d_int = 1, d_exp = - scale\<rparr>"

text \<open>\<^verbatim>\<open>Decimal(s)\<close> for a string.  Only the literals the program passes are modelled:
  a non-empty run of ASCII digits, which denotes that integer with exponent 0.\<close>

definition is_digit :: "char \<Rightarrow> bool" where
  "is_digit c = (48 \<le> (of_char c :: nat) \<and> (of_char c :: nat) \<le> 57)"

definition digits_to_nat :: "string \<Rightarrow> nat" where
  "digits_to_nat s = foldl (\<lambda>acc c. 10 * acc + ((of_char c :: nat) - 48)) 0 s"

definition Decimal_of_str :: "string \<Rightarrow> error + decimal" where
  "Decimal_of_str s =
     (if s \<noteq> [] \<and> list_all is_digit s
      then Inr \<lparr>d_sign = False, d_int = digits_to_nat s, d_exp = 0\<rparr>
      else Inl InvalidOperation)"

text \<open>\<^verbatim>\<open>__mul__\<close>: the exact product, then \<^verbatim>\<open>_fix\<close>.\<close>

definition Decimal_mul :: "Context \<Rightarrow> decimal \<Rightarrow> decimal \<Rightarrow> decimal" where
  "Decimal_mul ctx a b =
     Decimal_fix ctx \<lparr>d_sign = (d_sign a \<noteq> d_sign b), d_int = d_int a * d_int b,
                      d_exp = d_exp a + d_exp b\<rparr>"

text \<open>The signed coefficient of a decimal written with the (smaller) exponent \<open>e\<close>.\<close>

definition scaled :: "int \<Rightarrow> decimal \<Rightarrow> int" where
  "scaled e d = (if d_sign d then - 1 else 1) * int (d_int d) * 10 ^ nat (d_exp d - e)"

text \<open>\<^verbatim>\<open>__add__\<close>: the exact sum, written with the smaller of the two exponents, then
  \<^verbatim>\<open>_fix\<close>.  A sum of two zeros is negative only when both are; operands that cancel give
  a positive zero.\<close>

definition Decimal_add :: "Context \<Rightarrow> decimal \<Rightarrow> decimal \<Rightarrow> decimal" where
  "Decimal_add ctx a b =
     (let xp = min (d_exp a) (d_exp b);
          s = scaled xp a + scaled xp b
      in if d_int a = 0 \<and> d_int b = 0
         then Decimal_fix ctx \<lparr>d_sign = (d_sign a \<and> d_sign b), d_int = 0, d_exp = xp\<rparr>
         else Decimal_fix ctx \<lparr>d_sign = (s < 0), d_int = nat \<bar>s\<bar>, d_exp = xp\<rparr>)"

text \<open>\<^verbatim>\<open>__sub__\<close> adds the negated operand (\<^verbatim>\<open>copy_negate\<close>).\<close>

definition copy_negate :: "decimal \<Rightarrow> decimal" where
  "copy_negate d = d\<lparr>d_sign := \<not> d_sign d\<rparr>"

definition Decimal_sub :: "Context \<Rightarrow> decimal \<Rightarrow> decimal \<Rightarrow> decimal" where
  "Decimal_sub ctx a b = Decimal_add ctx a (copy_negate b)"

text \<open>The loop of \<^verbatim>\<open>__truediv__\<close> that brings an exact quotient towards the ideal
  exponent by removing trailing zeros.\<close>

function strip_exact :: "nat \<Rightarrow> int \<Rightarrow> int \<Rightarrow> nat \<times> int" where
  "strip_exact coeff xp ideal =
     (if xp < ideal \<and> coeff mod 10 = 0
      then strip_exact (coeff div 10) (xp + 1) ideal
      else (coeff, xp))"
  by pat_completeness auto
termination
  by (relation "measure (\<lambda>(coeff, xp, ideal). nat (ideal - xp))") auto

declare strip_exact.simps [simp del]

text \<open>\<^verbatim>\<open>__truediv__\<close>.  A zero divisor signals \<^verbatim>\<open>DivisionUndefined\<close> (an
  \<^verbatim>\<open>InvalidOperation\<close>) for \<open>0 / 0\<close> and \<^verbatim>\<open>DivisionByZero\<close> otherwise; the default context
  traps both, so they are raised.  Otherwise the quotient is computed to
  \<^verbatim>\<open>prec + 1\<close> or more digits, an inexact quotient ending in 0 or 5 gets a sticky 1 added, an
  exact one is stripped, and \<^verbatim>\<open>_fix\<close> rounds.\<close>

definition Decimal_truediv :: "Context \<Rightarrow> decimal \<Rightarrow> decimal \<Rightarrow> error + decimal" where
  "Decimal_truediv ctx a b =
     (let sign = (d_sign a \<noteq> d_sign b) in
      if d_int b = 0 then (if d_int a = 0 then Inl InvalidOperation else Inl DivisionByZero)
      else if d_int a = 0
      then Inr (Decimal_fix ctx \<lparr>d_sign = sign, d_int = 0, d_exp = d_exp a - d_exp b\<rparr>)
      else
        let shift = int (ndigits (d_int b)) - int (ndigits (d_int a)) + int (prec ctx) + 1;
            xp = d_exp a - d_exp b - shift;
            num = (if 0 \<le> shift then d_int a * 10 ^ nat shift else d_int a);
            den = (if 0 \<le> shift then d_int b else d_int b * 10 ^ nat (- shift));
            coeff = num div den;
            remainder = num mod den
        in if remainder \<noteq> 0
           then Inr (Decimal_fix ctx
                  \<lparr>d_sign = sign, d_int = (if coeff mod 5 = 0 then coeff + 1 else coeff),
                   d_exp = xp\<rparr>)
           else (case strip_exact coeff xp (d_exp a - d_exp b) of
                   (coeff', xp') \<Rightarrow>
                     Inr (Decimal_fix ctx \<lparr>d_sign = sign, d_int = coeff', d_exp = xp'\<rparr>)))"

text \<open>\<^verbatim>\<open>abs(d)\<close> and \<^verbatim>\<open>+d\<close> round like every other operation; both make a zero
  positive.\<close>

definition Decimal_abs :: "Context \<Rightarrow> decimal \<Rightarrow> decimal" where
  "Decimal_abs ctx d = Decimal_fix ctx (d\<lparr>d_sign := False\<rparr>)"

definition Decimal_pos :: "Context \<Rightarrow> decimal \<Rightarrow> decimal" where
  "Decimal_pos ctx d = Decimal_fix ctx (if d_int d = 0 then d\<lparr>d_sign := False\<rparr> else d)"

text \<open>\<^verbatim>\<open>a < b\<close> compares the numbers exactly; the context plays no part.\<close>

definition Decimal_lt :: "decimal \<Rightarrow> decimal \<Rightarrow> bool" where
  "Decimal_lt a b = (let e = min (d_exp a) (d_exp b) in scaled e a < scaled e b)"

section \<open>The arctangent series and the Pi calculator\<close>

text \<open>The body of the \<^verbatim>\<open>while True\<close> loop of \<^verbatim>\<open>arctan\<close> up to the division: the new
  divisor, the new term, and the candidate \<^verbatim>\<open>term_to_add\<close> (or the error the division
  raises).\<close>

definition arctan_body ::
  "Context \<Rightarrow> decimal \<Rightarrow> decimal \<times> decimal \<times> decimal
     \<Rightarrow> decimal \<times> decimal \<times> (error + decimal)" where
  "arctan_body ctx x_squared s =
     (case s of (divisor, tm, result) \<Rightarrow>
        let divisor' = Decimal_add ctx divisor (Decimal_of_int 2);
            tm' = Decimal_mul ctx tm (Decimal_mul ctx x_squared (Decimal_of_int (- 1)))
        in (divisor', tm', Decimal_truediv ctx tm' divisor'))"

text \<open>The loop itself, on the state \<open>(divisor, term, result)\<close>.  It has no iteration bound
  in the source, so the model is a partial function: \<open>None\<close> is a loop that never leaves.\<close>

partial_function (option) arctan_loop ::
  "Context \<Rightarrow> decimal \<Rightarrow> decimal \<Rightarrow> decimal \<times> decimal \<times> decimal
     \<Rightarrow> (error + decimal) option" where
  "arctan_loop ctx x_squared thr s =
     (case arctan_body ctx x_squared s of
        (divisor', tm', Inl e) \<Rightarrow> Some (Inl e)
      | (divisor', tm', Inr term_to_add) \<Rightarrow>
          if Decimal_lt (Decimal_abs ctx term_to_add) thr
          then Some (Inr (snd (snd s)))
          else arctan_loop ctx x_squared thr
                 (divisor', tm', Decimal_add ctx (snd (snd s)) term_to_add))"

text \<open>\<^verbatim>\<open>arctan(x_inv_str, scale)\<close>.  The result carries the context the call leaves
  behind.\<close>

definition arctan_py :: "string \<Rightarrow> int \<Rightarrow> Context \<Rightarrow> (error + decimal \<times> Context) option" where
  "arctan_py x_inv_str scale ctx0 =
     (case set_prec scale ctx0 of
        Inl e \<Rightarrow> Some (Inl e)
      | Inr ctx \<Rightarrow>
         (case Decimal_of_str x_inv_str of
            Inl e \<Rightarrow> Some (Inl e)
          | Inr x_inv \<Rightarrow>
             (case Decimal_truediv ctx (Decimal_of_int 1) x_inv of
                Inl e \<Rightarrow> Some (Inl e)
              | Inr x \<Rightarrow>
                 (let x_squared = Decimal_mul ctx x x in
                  case arctan_loop ctx x_squared (Decimal_1e_minus scale)
                         (Decimal_of_int 1, x, x) of
                    None \<Rightarrow> None
                  | Some (Inl e) \<Rightarrow> Some (Inl e)
                  | Some (Inr result) \<Rightarrow> Some (Inr (result, ctx))))))"

text \<open>\<^verbatim>\<open>calculate_pi(digits)\<close>.\<close>

definition calculate_pi :: "int \<Rightarrow> Context \<Rightarrow> (error + decimal \<times> Context) option" where
  "calculate_pi digits ctx0 =
     (let scale = digits + 10 in
      case set_prec scale ctx0 of
        Inl e \<Rightarrow> Some (Inl e)
      | Inr ctx1 \<Rightarrow>
         (case arctan_py ''5'' scale ctx1 of
            None \<Rightarrow> None
          | Some (Inl e) \<Rightarrow> Some (Inl e)
          | Some (Inr (term1, ctx2)) \<Rightarrow>
             (case arctan_py ''239'' scale ctx2 of
                None \<Rightarrow> None
              | Some (Inl e) \<Rightarrow> Some (Inl e)
              | Some (Inr (term2, ctx3)) \<Rightarrow>
                 (let pi_v = Decimal_sub ctx3 (Decimal_mul ctx3 term1 (Decimal_of_int 16))
                                             (Decimal_mul ctx3 term2 (Decimal_of_int 4))
                  in case set_prec digits ctx3 of
                       Inl e \<Rightarrow> Some (Inl e)
                     | Inr ctx4 \<Rightarrow> Some (Inr (Decimal_pos ctx4 pi_v, ctx4))))))"

section \<open>The benchmark harness\<close>

text \<open>\<^verbatim>\<open>int(s)\<close> for a command-line argument: surrounding white space is dropped, one sign
  is allowed, and the digits may be grouped by single underscores.  \<open>None\<close> is the
  \<^verbatim>\<open>ValueError\<close> that \<^verbatim>\<open>int\<close> raises.  Only ASCII is modelled.\<close>

definition is_space :: "char \<Rightarrow> bool" where
  "is_space c = ((9 \<le> (of_char c :: nat) \<and> (of_char c :: nat) \<le> 13)
                  \<or> (28 \<le> (of_char c :: nat) \<and> (of_char c :: nat) \<le> 32))"

definition strip :: "string \<Rightarrow> string" where
  "strip s = rev (dropWhile is_space (rev (dropWhile is_space s)))"

fun valid_int_body :: "string \<Rightarrow> bool" where
  "valid_int_body [] = False"
| "valid_int_body [c] = is_digit c"
| "valid_int_body (c # d # cs) =
     (if is_digit c
      then (if d = CHR ''_'' then cs \<noteq> [] \<and> valid_int_body cs else valid_int_body (d # cs))
      else False)"

definition int_of_body :: "string \<Rightarrow> int option" where
  "int_of_body s =
     (if valid_int_body s then Some (int (digits_to_nat (filter is_digit s))) else None)"

definition int_py :: "string \<Rightarrow> int option" where
  "int_py s =
     (case strip s of
        [] \<Rightarrow> None
      | c # cs \<Rightarrow>
          if c = CHR ''-'' then map_option uminus (int_of_body cs)
          else if c = CHR ''+'' then int_of_body cs
          else int_of_body (c # cs))"

text \<open>\<^verbatim>\<open>int(x)\<close> for a float truncates towards zero.  Floats are modelled as exact rationals:
  the rounding of binary floating point is not part of the model.\<close>

definition int_trunc :: "rat \<Rightarrow> int" where
  "int_trunc x = (if 0 \<le> x then \<lfloor>x\<rfloor> else \<lceil>x\<rceil>)"

text \<open>What the run leaves behind: the exit status, the report lines on standard output, the
  lines on the error stream, and a log of the Pi computations and timer readings in the
  order in which they happen (the log is instrumentation; the program keeps no such list).\<close>

datatype value_error = Invalid_literal string | Inputs_must_be_positive

datatype err_line = Usage_line | Example_line | Invalid_arguments_line
  | Exception_text value_error | Traceback error

datatype event = Warm_up int | Timer_start | Task int | Timer_stop

record report =
  r_digits :: int
  r_reps_per_thread :: int
  r_threads :: int
  r_total_time_ms :: rat
  r_calcs_per_sec :: rat

record run =
  exit_status :: int
  stdout :: "report list"
  stderr :: "err_line list"
  events :: "event list"

text \<open>The \<^verbatim>\<open>try\<close> block of \<^verbatim>\<open>main\<close>: three conversions in order, then the positivity
  check; the first failure is the \<^verbatim>\<open>ValueError\<close> that the \<^verbatim>\<open>except\<close> clause
  prints.\<close>

definition parse_args :: "string \<Rightarrow> string \<Rightarrow> string \<Rightarrow> value_error + int \<times> int \<times> int" where
  "parse_args a1 a2 a3 =
     (case int_py a1 of
        None \<Rightarrow> Inl (Invalid_literal a1)
      | Some digits \<Rightarrow>
         (case int_py a2 of
            None \<Rightarrow> Inl (Invalid_literal a2)
          | Some reps_per_thread \<Rightarrow>
             (case int_py a3 of
                None \<Rightarrow> Inl (Invalid_literal a3)
              | Some num_processes \<Rightarrow>
                  if digits \<le> 0 \<or> reps_per_thread \<le> 0 \<or> num_processes \<le> 0
                  then Inl Inputs_must_be_positive
                  else Inr (digits, reps_per_thread, num_processes))))"

text \<open>The warm-up loop \<^verbatim>\<open>for _ in range(warm_up_reps): calculate_pi(digits)\<close>: the calls
  run one after the other in the context of the main process.\<close>

fun warm_up :: "nat \<Rightarrow> int \<Rightarrow> Context \<Rightarrow> event list \<Rightarrow> (event list \<times> (error + Context)) option" where
  "warm_up 0 digits ctx tr = Some (tr, Inr ctx)"
| "warm_up (Suc n) digits ctx tr =
     (case calculate_pi digits ctx of
        None \<Rightarrow> None
      | Some (Inl e) \<Rightarrow> Some (tr @ [Warm_up digits], Inl e)
      | Some (Inr (v, ctx')) \<Rightarrow> warm_up n digits ctx' (tr @ [Warm_up digits]))"

text \<open>\<^verbatim>\<open>pool.map(calculate_pi, tasks)\<close>: every task is computed by a worker process, which
  starts from its own copy of the context; the results come back in order and the first
  exception is raised again in the main process.  Which worker runs which task, and the
  overlap in time, are not modelled.\<close>

fun pool_map :: "int list \<Rightarrow> Context \<Rightarrow> event list \<Rightarrow> (event list \<times> (error + decimal list)) option" where
  "pool_map [] ctx tr = Some (tr, Inr [])"
| "pool_map (t # ts) ctx tr =
     (case calculate_pi t ctx of
        None \<Rightarrow> None
      | Some (Inl e) \<Rightarrow> Some (tr @ [Task t], Inl e)
      | Some (Inr (v, ctx')) \<Rightarrow>
         (case pool_map ts ctx (tr @ [Task t]) of
            None \<Rightarrow> None
          | Some (tr', Inl e) \<Rightarrow> Some (tr', Inl e)
          | Some (tr', Inr vs) \<Rightarrow> Some (tr', Inr (v # vs))))"

text \<open>\<^verbatim>\<open>main()\<close>.  \<open>argv\<close> is \<^verbatim>\<open>sys.argv\<close>, \<open>start_time\<close> and \<open>end_time\<close> are the two
  readings of \<^verbatim>\<open>time.perf_counter()\<close>, \<open>ctx0\<close> is the decimal context of the process.  An
  exception that nothing catches ends the run with status 1 and a traceback.\<close>

definition main :: "string list \<Rightarrow> rat \<Rightarrow> rat \<Rightarrow> Context \<Rightarrow> run option" where
  "main argv start_time end_time ctx0 =
     (if length argv \<noteq> 4
      then Some \<lparr>exit_status = 1, stdout = [], stderr = [Usage_line, Example_line], events = []\<rparr>
      else
        case parse_args (argv ! 1) (argv ! 2) (argv ! 3) of
          Inl e \<Rightarrow>
            Some \<lparr>exit_status = 1, stdout = [],
                  stderr = [Invalid_arguments_line, Exception_text e], events = []\<rparr>
        | Inr (digits, reps_per_thread, num_processes) \<Rightarrow>
           (let warm_up_reps = max 1 (int_trunc (of_int reps_per_thread * (1 / 10))) in
            case warm_up (nat warm_up_reps) digits ctx0 [] of
              None \<Rightarrow> None
            | Some (tr1, Inl e) \<Rightarrow>
                Some \<lparr>exit_status = 1, stdout = [], stderr = [Traceback e], events = tr1\<rparr>
            | Some (tr1, Inr ctx1) \<Rightarrow>
               (let total_calculations = reps_per_thread * num_processes;
                    tasks = replicate (nat total_calculations) digits
                in case pool_map tasks ctx1 (tr1 @ [Timer_start]) of
                     None \<Rightarrow> None
                   | Some (tr2, Inl e) \<Rightarrow>
                       Some \<lparr>exit_status = 1, stdout = [], stderr = [Traceback e],
                             events = tr2\<rparr>
                   | Some (tr2, Inr results) \<Rightarrow>
                      (let total_time_sec = end_time - start_time;
                           total_time_ms = total_time_sec * 1000
                       in if total_time_sec = 0
                          then Some \<lparr>exit_status = 1, stdout = [],
                                     stderr = [Traceback ZeroDivisionError],
                                     events = tr2 @ [Timer_stop]\<rparr>
                          else Some \<lparr>exit_status = 0,
                                     stdout = [\<lparr>r_digits = digits,
                                                r_reps_per_thread = reps_per_thread,
                                                r_threads = num_processes,
                                                r_total_time_ms = total_time_ms,
                                                r_calcs_per_sec =
                                                  of_int total_calculations / total_time_sec\<rparr>],
                                     stderr = [], events = tr2 @ [Timer_stop]\<rparr>))))"

section \<open>The algorithms as the specification words them\<close>

text \<open>The specification's Decimal Engine takes the working precision as an argument of every
  operation.  \<open>at_prec P\<close> is that argument, handed to the operations of the engine above.\<close>

definition at_prec :: "nat \<Rightarrow> Context" where
  "at_prec P = \<lparr>prec = P\<rparr>"

text \<open>The loop of the Arctangent Series Evaluator: \<open>divisor += 2\<close>;
  \<open>term = term \<times> (\<minus>x\<^sup>2)\<close>; \<open>termToAdd = term / divisor\<close>; stop without adding when
  \<open>|termToAdd| < 10\<^sup>\<minus>\<^sup>s\<^sup>c\<^sup>a\<^sup>l\<^sup>e\<close>, otherwise \<open>result += termToAdd\<close> and continue.  The
  absolute value and the comparison are exact.  The state is \<open>(divisor, term, result)\<close>.\<close>

partial_function (option) series_loop ::
  "nat \<Rightarrow> decimal \<Rightarrow> int \<Rightarrow> decimal \<times> decimal \<times> decimal \<Rightarrow> (error + decimal) option" where
  "series_loop p xv scale s =
     (let divisor' = Decimal_add (at_prec p) (fst s) (Decimal_of_int 2);
          tm' = Decimal_mul (at_prec p) (fst (snd s)) (copy_negate (Decimal_mul (at_prec p) xv xv))
      in case Decimal_truediv (at_prec p) tm' divisor' of
           Inl e \<Rightarrow> Some (Inl e)
         | Inr termToAdd \<Rightarrow>
             if Decimal_lt (termToAdd\<lparr>d_sign := False\<rparr>) (Decimal_1e_minus scale)
             then Some (Inr (snd (snd s)))
             else series_loop p xv scale
                    (divisor', tm', Decimal_add (at_prec p) (snd (snd s)) termToAdd))"

text \<open>\<open>arctanSeries(b, scale)\<close>: \<open>x = 1/b\<close> at precision \<open>scale\<close>, then the loop from
  \<open>term = x\<close>, \<open>result = x\<close>, \<open>divisor = 1\<close>.\<close>

definition arctanSeries :: "nat \<Rightarrow> int \<Rightarrow> (error + decimal) option" where
  "arctanSeries b scale =
     (case Decimal_truediv (at_prec (nat scale)) (Decimal_of_int 1) (Decimal_of_int (int b)) of
        Inl e \<Rightarrow> Some (Inl e)
      | Inr x \<Rightarrow> series_loop (nat scale) x scale (Decimal_of_int 1, x, x))"

text \<open>\<open>computePi(digits)\<close>: \<open>scale = digits + 10\<close>; \<open>t1\<close> and \<open>t2\<close> at precision
  \<open>scale\<close>; \<open>pi = t1\<times>16 \<minus> t2\<times>4\<close> at precision \<open>scale\<close>; the result is \<open>pi\<close> rounded
  again at precision \<open>digits\<close> (the engine's unary plus).\<close>

definition computePi :: "int \<Rightarrow> (error + decimal) option" where
  "computePi digits =
     (let scale = digits + 10 in
      case arctanSeries 5 scale of
        None \<Rightarrow> None
      | Some (Inl e) \<Rightarrow> Some (Inl e)
      | Some (Inr t1) \<Rightarrow>
         (case arctanSeries 239 scale of
            None \<Rightarrow> None
          | Some (Inl e) \<Rightarrow> Some (Inl e)
          | Some (Inr t2) \<Rightarrow>
              Some (Inr (Decimal_pos (at_prec (nat digits))
                (Decimal_sub (at_prec (nat scale))
                   (Decimal_mul (at_prec (nat scale)) t1 (Decimal_of_int 16))
                   (Decimal_mul (at_prec (nat scale)) t2 (Decimal_of_int 4)))))))"

text \<open>The warm-up count as the specification words it, with Python's \<^verbatim>\<open>round\<close>
  (to the nearest integer, a tie to the even one).\<close>

definition round_py :: "rat \<Rightarrow> int" where
  "round_py x =
     (if x - of_int \<lfloor>x\<rfloor> < 1 / 2 then \<lfloor>x\<rfloor>
      else if 1 / 2 < x - of_int \<lfloor>x\<rfloor> then \<lfloor>x\<rfloor> + 1
      else if even \<lfloor>x\<rfloor> then \<lfloor>x\<rfloor> else \<lfloor>x\<rfloor> + 1)"

definition warmupReps_spec :: "int \<Rightarrow> int" where
  "warmupReps_spec repsPerThread = max 1 (round_py (of_int repsPerThread * (1 / 10)))"

section \<open>Auxiliary notions for the proofs\<close>

text \<open>The magnitude of a decimal, the coefficient that rounding half-even keeps when \<open>k\<close>
  digits are dropped, the states the loop of \<^verbatim>\<open>arctan\<close> passes through, and the invariant
  of that loop after \<open>k\<close> additions.\<close>

definition mag :: "decimal \<Rightarrow> rat" where
  "mag d = of_nat (d_int d) * 10 powi d_exp d"

definition kept :: "nat \<Rightarrow> nat \<Rightarrow> nat" where
  "kept c k = (if 10 ^ k < 2 * (c mod 10 ^ k) \<or> (2 * (c mod 10 ^ k) = 10 ^ k \<and> odd (c div 10 ^ k))
               then c div 10 ^ k + 1 else c div 10 ^ k)"

inductive arctan_reach ::
  "Context \<Rightarrow> decimal \<Rightarrow> decimal \<Rightarrow> decimal \<times> decimal \<times> decimal
     \<Rightarrow> decimal \<times> decimal \<times> decimal \<Rightarrow> bool"
  for ctx x2 thr s0 where
    start: "arctan_reach ctx x2 thr s0 s0"
  | step: "arctan_reach ctx x2 thr s0 s \<Longrightarrow> arctan_body ctx x2 s = (d', t', Inr tta)
             \<Longrightarrow> \<not> Decimal_lt (Decimal_abs ctx tta) thr
             \<Longrightarrow> arctan_reach ctx x2 thr s0 (d', t', Decimal_add ctx (snd (snd s)) tta)"

definition loop_inv :: "Context \<Rightarrow> nat \<Rightarrow> decimal \<times> decimal \<times> decimal \<Rightarrow> bool" where
  "loop_inv ctx k s \<longleftrightarrow>
     fst s = Decimal_of_int (int (2 * k + 1)) \<and> mag (fst (snd s)) \<le> 10 powi (- int k)
       \<and> k \<le> prec ctx"


lemma ndigits_pos: "0 < ndigits n"
  by (subst ndigits.simps) simp

lemma ndigits_upper: "n < 10 ^ ndigits n"
proof (induction n rule: ndigits.induct)
  case (1 n)
  show ?case
  proof (cases "n < 10")
    case True
    then show ?thesis by (subst ndigits.simps) simp
  next
    case False
    then have "n div 10 < 10 ^ ndigits (n div 10)" using 1 by simp
    then have "n < 10 * 10 ^ ndigits (n div 10)" by simp
    with False show ?thesis by (subst ndigits.simps) simp
  qed
qed

lemma ndigits_lower: "n \<noteq> 0 \<Longrightarrow> 10 ^ (ndigits n - 1) \<le> n"
proof (induction n rule: ndigits.induct)
  case (1 n)
  show ?case
  proof (cases "n < 10")
    case True
    with 1 show ?thesis by (subst ndigits.simps) simp
  next
    case False
    then have nz: "n div 10 \<noteq> 0" by simp
    have "10 ^ (ndigits (n div 10) - 1) \<le> n div 10" using 1 False nz by simp
    then have "10 * 10 ^ (ndigits (n div 10) - 1) \<le> n" by simp
    moreover have "0 < ndigits (n div 10)" by (rule ndigits_pos)
    ultimately have "10 ^ ndigits (n div 10) \<le> n"
      by (cases "ndigits (n div 10)") simp_all
    with False show ?thesis by (subst ndigits.simps) simp
  qed
qed

lemma ndigits_le: "n < 10 ^ p \<Longrightarrow> 0 < p \<Longrightarrow> ndigits n \<le> p"
proof (rule ccontr)
  assume a: "n < 10 ^ p" "0 < p" and b: "\<not> ndigits n \<le> p"
  then have "p \<le> ndigits n - 1" by simp
  then have "(10::nat) ^ p \<le> 10 ^ (ndigits n - 1)" by (simp add: power_increasing)
  moreover have "n \<noteq> 0"
  proof
    assume "n = 0"
    then have "ndigits n = 1" by (subst ndigits.simps) simp
    with b a show False by simp
  qed
  ultimately have "10 ^ p \<le> n" using ndigits_lower[of n] by (meson order_trans)
  with a show False by linarith
qed

lemma ndigits_less_pow: "ndigits n \<le> p \<Longrightarrow> n < 10 ^ p"
proof -
  assume "ndigits n \<le> p"
  then have "(10::nat) ^ ndigits n \<le> 10 ^ p" by (simp add: power_increasing)
  with ndigits_upper[of n] show ?thesis by (rule less_le_trans)
qed


lemma mag_nonneg: "0 \<le> mag d"
  by (simp add: mag_def)

lemma val_abs: "\<bar>val d\<bar> = mag d"
  by (simp add: val_def mag_def abs_mult)

lemma fix_sign: "d_sign (Decimal_fix ctx d) = d_sign d"
  by (simp add: Decimal_fix_def Let_def)

lemma fix_id: "d_int d < 10 ^ prec ctx \<Longrightarrow> 0 < prec ctx \<Longrightarrow> Decimal_fix ctx d = d"
  by (simp add: Decimal_fix_def ndigits_le)

lemma kept_le: assumes "c \<le> M * 10 ^ k" shows "kept c k \<le> M"
proof -
  have q: "c div 10 ^ k \<le> M"
  proof -
    have "c div 10 ^ k \<le> (M * 10 ^ k) div 10 ^ k" using assms by (rule div_le_mono)
    then show ?thesis by simp
  qed
  show ?thesis
  proof (cases "c div 10 ^ k = M")
    case True
    have "c div 10 ^ k * 10 ^ k + c mod 10 ^ k = c" by (rule div_mult_mod_eq)
    with True assms have "M * 10 ^ k + c mod 10 ^ k \<le> M * 10 ^ k" by simp
    then have "c mod 10 ^ k = 0" by simp
    with True show ?thesis by (simp add: kept_def)
  next
    case False
    with q have "c div 10 ^ k < M" by simp
    then show ?thesis by (simp add: kept_def)
  qed
qed

lemma kept_upper: assumes "c < 10 ^ (p + k)" shows "kept c k \<le> 10 ^ p"
proof -
  have "c \<le> 10 ^ p * 10 ^ k" using assms by (simp add: power_add)
  then show ?thesis by (rule kept_le)
qed

lemma fix_round:
  assumes "d_int d \<noteq> 0" "\<not> ndigits (d_int d) \<le> prec ctx"
  shows "Decimal_fix ctx d =
     (let k = ndigits (d_int d) - prec ctx; coeff = kept (d_int d) k in
      if prec ctx < ndigits coeff
      then \<lparr>d_sign = d_sign d, d_int = coeff div 10, d_exp = d_exp d + int k + 1\<rparr>
      else \<lparr>d_sign = d_sign d, d_int = coeff, d_exp = d_exp d + int k\<rparr>)"
  using assms by (simp add: Decimal_fix_def Let_def kept_def)

lemma fix_rep: assumes "0 < prec ctx" shows "d_int (Decimal_fix ctx d) < 10 ^ prec ctx"
proof (cases "d_int d = 0 \<or> ndigits (d_int d) \<le> prec ctx")
  case True
  then show ?thesis using ndigits_less_pow[of "d_int d" "prec ctx"]
    by (auto simp: Decimal_fix_def)
next
  case False
  define k where "k = ndigits (d_int d) - prec ctx"
  define coeff where "coeff = kept (d_int d) k"
  have "d_int d < 10 ^ ndigits (d_int d)" by (rule ndigits_upper)
  moreover have "ndigits (d_int d) = prec ctx + k" using False by (simp add: k_def)
  ultimately have "coeff \<le> 10 ^ prec ctx" unfolding coeff_def by (simp add: kept_upper)
  show ?thesis
  proof (cases "prec ctx < ndigits coeff")
    case True
    have "coeff div 10 \<le> 10 ^ prec ctx div 10" using \<open>coeff \<le> 10 ^ prec ctx\<close> by (rule div_le_mono)
    also have "\<dots> < 10 ^ prec ctx" using assms by (cases "prec ctx") simp_all
    finally show ?thesis using False True by (simp add: fix_round Let_def k_def coeff_def)
  next
    case nc: False
    then have "coeff < 10 ^ prec ctx" by (simp add: ndigits_less_pow)
    then show ?thesis using False nc by (simp add: fix_round Let_def k_def coeff_def)
  qed
qed

lemma fix_mag_round:
  assumes "0 < prec ctx" "d_int d \<noteq> 0" "\<not> ndigits (d_int d) \<le> prec ctx"
  shows "mag (Decimal_fix ctx d) =
     of_nat (kept (d_int d) (ndigits (d_int d) - prec ctx))
       * 10 powi (d_exp d + int (ndigits (d_int d) - prec ctx))"
proof -
  define k where "k = ndigits (d_int d) - prec ctx"
  define coeff where "coeff = kept (d_int d) k"
  have "d_int d < 10 ^ ndigits (d_int d)" by (rule ndigits_upper)
  moreover have "ndigits (d_int d) = prec ctx + k" using assms by (simp add: k_def)
  ultimately have le: "coeff \<le> 10 ^ prec ctx" unfolding coeff_def by (simp add: kept_upper)
  show ?thesis
  proof (cases "prec ctx < ndigits coeff")
    case True
    have "\<not> coeff < 10 ^ prec ctx" using True ndigits_le[of coeff "prec ctx"] assms by auto
    with le have eq: "coeff = 10 ^ prec ctx" by simp
    obtain p' where p': "prec ctx = Suc p'" using assms by (cases "prec ctx") auto
    have "coeff div 10 = 10 ^ p'" by (simp add: eq p')
    then have "mag (Decimal_fix ctx d) = of_nat (10 ^ p') * 10 powi (d_exp d + int k + 1)"
      using assms True by (simp add: fix_round Let_def k_def coeff_def mag_def)
    also have "\<dots> = of_nat coeff * 10 powi (d_exp d + int k)"
      by (simp add: eq p' power_int_add)
    finally show ?thesis by (simp add: k_def coeff_def)
  next
    case False
    then show ?thesis using assms by (simp add: fix_round Let_def k_def coeff_def mag_def)
  qed
qed


lemma pow10_split: "e \<le> j \<Longrightarrow> (10::rat) powi j = 10 powi e * 10 ^ nat (j - e)"
proof -
  assume "e \<le> j"
  then obtain n where n: "j = e + int n" using zle_iff_zadd by blast
  have "(10::rat) powi (e + int n) = 10 powi e * 10 powi int n" by (rule power_int_add) simp
  then show ?thesis by (simp add: n)
qed

lemma pow10_pos: "0 < (10::rat) powi e"
  by simp

lemma pow10_mono: "e \<le> j \<Longrightarrow> (10::rat) powi e \<le> 10 powi j"
proof -
  assume h: "e \<le> j"
  have "(1::rat) \<le> 10 ^ nat (j - e)" by simp
  then have "(10::rat) powi e * 1 \<le> 10 powi e * 10 ^ nat (j - e)"
    by (intro mult_left_mono) simp_all
  then show ?thesis using pow10_split[OF h] by simp
qed

lemma fix_bound:
  assumes p: "0 < prec ctx" and m: "m < 10 ^ prec ctx"
    and le: "mag d \<le> of_nat m * 10 powi j"
  shows "mag (Decimal_fix ctx d) \<le> of_nat m * 10 powi j"
proof (cases "d_int d = 0 \<or> ndigits (d_int d) \<le> prec ctx")
  case True
  then have "Decimal_fix ctx d = d" by (auto simp: Decimal_fix_def)
  with le show ?thesis by simp
next
  case False
  define c where "c = d_int d"
  define e where "e = d_exp d"
  define k where "k = ndigits c - prec ctx"
  have nd: "ndigits c = prec ctx + k" and kpos: "0 < k" using False by (simp_all add: k_def c_def)
  have fm: "mag (Decimal_fix ctx d) = of_nat (kept c k) * 10 powi (e + int k)"
    using fix_mag_round[of ctx d] False p by (simp add: c_def e_def k_def)
  have md: "mag d = of_nat c * 10 powi e" by (simp add: mag_def c_def e_def)
  show ?thesis
  proof (cases "e + int k \<le> j")
    case True
    define n where "n = nat (j - (e + int k))"
    have j1: "(10::rat) powi j = 10 powi (e + int k) * 10 ^ n"
      unfolding n_def using True by (rule pow10_split)
    have j2: "(10::rat) powi (e + int k) = 10 powi e * 10 ^ k"
      using pow10_split[of e "e + int k"] by simp
    have "of_nat c * 10 powi e \<le> (of_nat (m * 10 ^ n * 10 ^ k) :: rat) * 10 powi e"
      using le by (simp add: md j1 j2 mult_ac)
    then have "(of_nat c :: rat) \<le> of_nat (m * 10 ^ n * 10 ^ k)"
      using pow10_pos[of e] by (simp only: mult_le_cancel_right_pos)
    then have "c \<le> (m * 10 ^ n) * 10 ^ k" by (simp only: of_nat_le_iff)
    then have "kept c k \<le> m * 10 ^ n" by (rule kept_le)
    then have "(of_nat (kept c k) :: rat) \<le> of_nat (m * 10 ^ n)" by (simp only: of_nat_le_iff)
    then have "(of_nat (kept c k) :: rat) * 10 powi (e + int k)
                 \<le> of_nat (m * 10 ^ n) * 10 powi (e + int k)"
      by (intro mult_right_mono) simp_all
    then show ?thesis by (simp add: fm j1 mult_ac)
  next
    case False
    then have jle: "j \<le> e + int k - 1" by simp
    have cz: "c \<noteq> 0" using \<open>\<not> (d_int d = 0 \<or> ndigits (d_int d) \<le> prec ctx)\<close> by (simp add: c_def)
    have "10 ^ (ndigits c - 1) \<le> c" using cz by (rule ndigits_lower)
    moreover have "ndigits c - 1 = prec ctx + (k - 1)" using nd kpos by simp
    ultimately have "10 ^ prec ctx * 10 ^ (k - 1) \<le> c" by (simp add: power_add)
    then have "(of_nat (10 ^ prec ctx * 10 ^ (k - 1)) :: rat) \<le> of_nat c"
      by (simp only: of_nat_le_iff)
    then have "(of_nat (10 ^ prec ctx * 10 ^ (k - 1)) :: rat) * 10 powi e \<le> of_nat c * 10 powi e"
      by (intro mult_right_mono) simp_all
    moreover have "(10::rat) powi (e + int k - 1) = 10 powi e * 10 ^ (k - 1)"
      using pow10_split[of e "e + int k - 1"] kpos by (simp add: nat_diff_distrib)
    ultimately have lower: "(10::rat) ^ prec ctx * 10 powi (e + int k - 1) \<le> mag d"
      by (simp add: md mult_ac)
    have "(of_nat m :: rat) * 10 powi j \<le> of_nat m * 10 powi (e + int k - 1)"
      using pow10_mono[OF jle] by (intro mult_left_mono) simp_all
    also have "\<dots> < 10 ^ prec ctx * 10 powi (e + int k - 1)"
    proof -
      have "(of_nat m :: rat) < of_nat (10 ^ prec ctx)" using m by (simp only: of_nat_less_iff)
      then show ?thesis by (intro mult_strict_right_mono) simp_all
    qed
    finally have "of_nat m * 10 powi j < mag d" using lower by simp
    with le show ?thesis by simp
  qed
qed


lemma mul_bound:
  assumes "0 < prec ctx" "m < 10 ^ prec ctx" "mag a * mag b \<le> of_nat m * 10 powi j"
  shows "mag (Decimal_mul ctx a b) \<le> of_nat m * 10 powi j"
proof -
  have "mag \<lparr>d_sign = (d_sign a \<noteq> d_sign b), d_int = d_int a * d_int b,
              d_exp = d_exp a + d_exp b\<rparr> = mag a * mag b"
    by (simp add: mag_def power_int_add)
  with assms show ?thesis unfolding Decimal_mul_def by (intro fix_bound) simp_all
qed

lemma mul_rep: "0 < prec ctx \<Longrightarrow> d_int (Decimal_mul ctx a b) < 10 ^ prec ctx"
  unfolding Decimal_mul_def by (rule fix_rep)

lemma mul_minus_one:
  "d_int a < 10 ^ prec ctx \<Longrightarrow> 0 < prec ctx
     \<Longrightarrow> Decimal_mul ctx a (Decimal_of_int (- 1)) = copy_negate a"
  by (simp add: Decimal_mul_def Decimal_of_int_def copy_negate_def fix_id)

lemma mag_copy_negate: "mag (copy_negate a) = mag a"
  by (simp add: mag_def copy_negate_def)

lemma scaled_val: "e \<le> d_exp d \<Longrightarrow> of_int (scaled e d) * 10 powi e = val d"
  by (simp add: scaled_def val_def pow10_split[of e "d_exp d"])

lemma lt_val: "Decimal_lt a b \<longleftrightarrow> val a < val b"
proof -
  define e where "e = min (d_exp a) (d_exp b)"
  have a: "val a = of_int (scaled e a) * 10 powi e" and b: "val b = of_int (scaled e b) * 10 powi e"
    by (simp_all add: scaled_val e_def)
  have "val a < val b \<longleftrightarrow> (of_int (scaled e a) :: rat) < of_int (scaled e b)"
    unfolding a b using pow10_pos[of e] by (simp only: mult_less_cancel_right_pos)
  then show ?thesis by (simp add: Decimal_lt_def e_def Let_def)
qed

lemma abs_val:
  "d_int d < 10 ^ prec ctx \<Longrightarrow> 0 < prec ctx \<Longrightarrow> val (Decimal_abs ctx d) = mag d"
  by (simp add: Decimal_abs_def fix_id val_def mag_def)

lemma val_1e_minus: "val (Decimal_1e_minus s) = 10 powi (- s)"
  by (simp add: val_def Decimal_1e_minus_def)

lemma mag_of_nat: "mag (Decimal_of_int (int n)) = of_nat n"
  by (simp add: mag_def Decimal_of_int_def)

lemma add_two:
  assumes "n + 2 < 10 ^ prec ctx" "0 < prec ctx"
  shows "Decimal_add ctx (Decimal_of_int (int n)) (Decimal_of_int 2) = Decimal_of_int (int n + 2)"
proof -
  have "Decimal_fix ctx \<lparr>d_sign = False, d_int = n + 2, d_exp = 0\<rparr>
          = \<lparr>d_sign = False, d_int = n + 2, d_exp = 0\<rparr>"
    using assms by (intro fix_id) simp_all
  then show ?thesis
    by (simp add: Decimal_add_def Decimal_of_int_def scaled_def Let_def nat_add_distrib)
qed

lemma strip_exact_val:
  "strip_exact c x i = (c', x') \<Longrightarrow> (of_nat c' :: rat) * 10 powi x' = of_nat c * 10 powi x"
proof (induction c x i rule: strip_exact.induct)
  case (1 coeff xp ideal)
  show ?case
  proof (cases "xp < ideal \<and> coeff mod 10 = 0")
    case True
    then have "strip_exact (coeff div 10) (xp + 1) ideal = (c', x')"
      using "1.prems" by (subst (asm) strip_exact.simps) simp
    then have "(of_nat c' :: rat) * 10 powi x' = of_nat (coeff div 10) * 10 powi (xp + 1)"
      using "1.IH" True by simp
    also have "\<dots> = of_nat (coeff div 10) * 10 * 10 powi xp"
      by (simp add: power_int_add)
    also have "(of_nat (coeff div 10) :: rat) * 10 = of_nat (coeff div 10 * 10)" by simp
    also have "coeff div 10 * 10 = coeff" using True by auto
    finally show ?thesis .
  next
    case False
    then show ?thesis using "1.prems" by (subst (asm) strip_exact.simps) auto
  qed
qed


text \<open>numerator, denominator of the quotient computed by truediv\<close>

lemma div_quotient_facts:
  fixes ca cb :: nat and p :: nat
  assumes ca: "ca \<noteq> 0" and cb: "cb \<noteq> 0"
  defines "shift \<equiv> int (ndigits cb) - int (ndigits ca) + int p + 1"
  defines "num \<equiv> (if 0 \<le> shift then ca * 10 ^ nat shift else ca)"
  defines "den \<equiv> (if 0 \<le> shift then cb else cb * 10 ^ nat (- shift))"
  shows "den \<noteq> 0"
    and "10 ^ p * den \<le> num"
    and "(of_nat num :: rat) / of_nat den = of_nat ca / of_nat cb * 10 powi shift"
proof -
  show "den \<noteq> 0" using cb by (simp add: den_def)
  have lo: "10 ^ (ndigits ca - 1) \<le> ca" using ca by (rule ndigits_lower)
  have up: "cb < 10 ^ ndigits cb" by (rule ndigits_upper)
  have posa: "0 < ndigits ca" by (rule ndigits_pos)
  show "10 ^ p * den \<le> num"
  proof (cases "0 \<le> shift")
    case True
    define s where "s = nat shift"
    have "int s = shift" using True by (simp add: s_def)
    then have "int s = int (ndigits cb) - int (ndigits ca) + int p + 1" by (simp only: shift_def)
    then have "int (ndigits ca + s) = int (p + ndigits cb + 1)" by simp
    then have "ndigits ca + s = p + ndigits cb + 1" by (simp only: of_nat_eq_iff)
    then have sum: "(ndigits ca - 1) + s = p + ndigits cb" using posa by simp
    have "10 ^ p * cb \<le> 10 ^ p * 10 ^ ndigits cb" using up by simp
    also have "\<dots> = 10 ^ (ndigits ca - 1) * 10 ^ s" by (simp only: power_add[symmetric] sum)
    also have "\<dots> \<le> ca * 10 ^ s" using lo by simp
    finally show ?thesis using True by (simp add: num_def den_def s_def)
  next
    case False
    define t where "t = nat (- shift)"
    have "int t = - shift" using False by (simp add: t_def)
    then have "int t = - (int (ndigits cb) - int (ndigits ca) + int p + 1)" by (simp only: shift_def)
    then have "int (ndigits ca) = int (p + ndigits cb + t + 1)" by simp
    then have "ndigits ca = p + ndigits cb + t + 1" by (simp only: of_nat_eq_iff)
    then have sum: "ndigits ca - 1 = p + ndigits cb + t" by simp
    have "10 ^ p * (cb * 10 ^ t) \<le> 10 ^ p * (10 ^ ndigits cb * 10 ^ t)" using up by simp
    also have "\<dots> = 10 ^ (ndigits ca - 1)" by (simp only: sum power_add)
    also have "\<dots> \<le> ca" by (rule lo)
    finally show ?thesis using False by (simp add: num_def den_def t_def)
  qed
  show "(of_nat num :: rat) / of_nat den = of_nat ca / of_nat cb * 10 powi shift"
  proof (cases "0 \<le> shift")
    case True
    then have "(10::rat) powi shift = 10 ^ nat shift" by (simp add: power_int_def)
    with True show ?thesis by (simp add: num_def den_def)
  next
    case False
    then have "(10::rat) powi shift = inverse 10 ^ nat (- shift)"
      unfolding power_int_def by (simp only: if_False)
    then have eq: "(10::rat) powi shift = inverse (10 ^ nat (- shift))"
      by (simp only: power_inverse)
    define t where "t = nat (- shift)"
    have nd: "num = ca" "den = cb * 10 ^ t" using False by (simp_all add: num_def den_def t_def)
    have "(of_nat ca :: rat) / (of_nat cb * 10 ^ t) = of_nat ca / of_nat cb * inverse (10 ^ t)"
      by (simp add: divide_inverse mult_ac)
    then show ?thesis unfolding nd eq t_def[symmetric] by simp
  qed
qed

lemma mag_ratio:
  assumes "d_int b \<noteq> 0"
  shows "mag a / mag b = of_nat (d_int a) / of_nat (d_int b) * 10 powi (d_exp a - d_exp b)"
  using assms by (simp add: mag_def power_int_diff)

lemma div_bound:
  assumes p: "0 < prec ctx" and m: "m < 10 ^ prec ctx" and bz: "d_int b \<noteq> 0"
    and le: "mag a \<le> of_nat m * 10 powi j * mag b"
  shows "\<exists>q. Decimal_truediv ctx a b = Inr q \<and> mag q \<le> of_nat m * 10 powi j
              \<and> d_int q < 10 ^ prec ctx"
proof (cases "d_int a = 0")
  case True
  have "mag (Decimal_fix ctx \<lparr>d_sign = (d_sign a \<noteq> d_sign b), d_int = 0,
                               d_exp = d_exp a - d_exp b\<rparr>) = 0"
    by (simp add: Decimal_fix_def mag_def)
  then show ?thesis using True bz p by (simp add: Decimal_truediv_def Let_def fix_rep)
next
  case False
  define ca where "ca = d_int a"
  define cb where "cb = d_int b"
  define shift where "shift = int (ndigits cb) - int (ndigits ca) + int (prec ctx) + 1"
  define xp where "xp = d_exp a - d_exp b - shift"
  define num where "num = (if 0 \<le> shift then ca * 10 ^ nat shift else ca)"
  define den where "den = (if 0 \<le> shift then cb else cb * 10 ^ nat (- shift))"
  define sg where "sg = (d_sign a \<noteq> d_sign b)"
  have caz: "ca \<noteq> 0" and cbz: "cb \<noteq> 0" using False bz by (simp_all add: ca_def cb_def)
  note qf = div_quotient_facts[OF caz cbz, of "prec ctx", folded shift_def, folded num_def den_def]
  have denz: "den \<noteq> 0" and big: "10 ^ prec ctx * den \<le> num"
    and ratio: "(of_nat num :: rat) / of_nat den = of_nat ca / of_nat cb * 10 powi shift"
    using qf by blast+
  have magb: "0 < mag b" using bz by (simp add: mag_def)
  have true_q: "(of_nat num :: rat) / of_nat den * 10 powi xp = mag a / mag b"
  proof -
    have "(10::rat) powi shift * 10 powi xp = 10 powi (shift + xp)"
      by (rule power_int_add[symmetric]) simp
    then have "(10::rat) powi shift * 10 powi xp = 10 powi (d_exp a - d_exp b)"
      by (simp add: xp_def)
    then show ?thesis using mag_ratio[OF bz, of a] by (simp add: ratio ca_def cb_def mult.assoc)
  qed
  have quot_le: "(of_nat num :: rat) / of_nat den * 10 powi xp \<le> of_nat m * 10 powi j"
  proof -
    have "mag a / mag b \<le> of_nat m * 10 powi j" using le magb by (simp add: pos_divide_le_eq)
    then show ?thesis by (simp only: true_q)
  qed
  have coeff_big: "10 ^ prec ctx \<le> num div den"
  proof -
    have "(10 ^ prec ctx * den) div den \<le> num div den" using big by (rule div_le_mono)
    then show ?thesis using denz by simp
  qed
  have floor_le: "(of_nat (num div den) :: rat) \<le> of_nat num / of_nat den"
  proof -
    have "num div den * den \<le> num" by simp
    then have "(of_nat (num div den * den) :: rat) \<le> of_nat num" by (simp only: of_nat_le_iff)
    then show ?thesis using denz by (simp add: pos_le_divide_eq)
  qed
  have unfold: "Decimal_truediv ctx a b =
      (if num mod den \<noteq> 0
       then Inr (Decimal_fix ctx \<lparr>d_sign = sg,
                   d_int = (if (num div den) mod 5 = 0 then num div den + 1 else num div den),
                   d_exp = xp\<rparr>)
       else (case strip_exact (num div den) xp (d_exp a - d_exp b) of
               (coeff', xp') \<Rightarrow> Inr (Decimal_fix ctx \<lparr>d_sign = sg, d_int = coeff', d_exp = xp'\<rparr>)))"
    using False bz
    by (simp add: Decimal_truediv_def Let_def ca_def cb_def shift_def xp_def num_def den_def sg_def)
  show ?thesis
  proof (cases "num mod den = 0")
    case True
    obtain c' x' where st: "strip_exact (num div den) xp (d_exp a - d_exp b) = (c', x')"
      by (cases "strip_exact (num div den) xp (d_exp a - d_exp b)") auto
    have "(of_nat c' :: rat) * 10 powi x' = of_nat (num div den) * 10 powi xp"
      using st by (rule strip_exact_val)
    moreover have "(of_nat (num div den) :: rat) = of_nat num / of_nat den"
    proof -
      have "num div den * den + num mod den = num" by (rule div_mult_mod_eq)
      then have "num = num div den * den" using True by simp
      then have "(of_nat num :: rat) = of_nat (num div den) * of_nat den"
        by (metis of_nat_mult)
      then show ?thesis using denz by simp
    qed
    ultimately have "mag \<lparr>d_sign = sg, d_int = c', d_exp = x'\<rparr> \<le> of_nat m * 10 powi j"
      using quot_le by (simp add: mag_def)
    then have "mag (Decimal_fix ctx \<lparr>d_sign = sg, d_int = c', d_exp = x'\<rparr>) \<le> of_nat m * 10 powi j"
      using p m by (intro fix_bound)
    then show ?thesis using True st p by (simp add: unfold fix_rep)
  next
    case inexact: False
    define c2 where "c2 = (if (num div den) mod 5 = 0 then num div den + 1 else num div den)"
    have c2_le: "c2 \<le> num div den + 1" by (simp add: c2_def)
    have up1: "(of_nat (num div den + 1) :: rat) * 10 powi xp \<le> of_nat m * 10 powi j"
    proof (cases "xp \<le> j")
      case True
      define n where "n = nat (j - xp)"
      have j1: "(10::rat) powi j = 10 powi xp * 10 ^ n" unfolding n_def using True by (rule pow10_split)
      have "(of_nat num :: rat) / of_nat den * 10 powi xp \<le> of_nat (m * 10 ^ n) * 10 powi xp"
        using quot_le by (simp add: j1 mult_ac)
      then have "(of_nat num :: rat) / of_nat den \<le> of_nat (m * 10 ^ n)"
        using pow10_pos[of xp] by (simp only: mult_le_cancel_right_pos)
      then have "(of_nat num :: rat) \<le> of_nat (m * 10 ^ n) * of_nat den"
        using denz by (simp add: pos_divide_le_eq)
      then have "(of_nat num :: rat) \<le> of_nat (m * 10 ^ n * den)" by (simp only: of_nat_mult)
      then have nle: "num \<le> m * 10 ^ n * den" by (simp only: of_nat_le_iff)
      have "num div den \<le> (m * 10 ^ n * den) div den" using nle by (rule div_le_mono)
      then have qle: "num div den \<le> m * 10 ^ n" using denz by simp
      have "num div den \<noteq> m * 10 ^ n"
      proof
        assume eq: "num div den = m * 10 ^ n"
        have "num div den * den + num mod den = num" by (rule div_mult_mod_eq)
        with eq nle have "num mod den = 0" by simp
        with inexact show False by simp
      qed
      with qle have "num div den + 1 \<le> m * 10 ^ n" by simp
      then have "(of_nat (num div den + 1) :: rat) \<le> of_nat (m * 10 ^ n)" by (simp only: of_nat_le_iff)
      then have "(of_nat (num div den + 1) :: rat) * 10 powi xp \<le> of_nat (m * 10 ^ n) * 10 powi xp"
        by (intro mult_right_mono) simp_all
      then show ?thesis by (simp add: j1 mult_ac)
    next
      case False
      then have jle: "j \<le> xp" by simp
      have "(of_nat m :: rat) * 10 powi j \<le> of_nat m * 10 powi xp"
        using pow10_mono[OF jle] by (intro mult_left_mono) simp_all
      also have "\<dots> < of_nat (10 ^ prec ctx) * 10 powi xp"
      proof -
        have "(of_nat m :: rat) < of_nat (10 ^ prec ctx)" using m by (simp only: of_nat_less_iff)
        then show ?thesis by (intro mult_strict_right_mono) simp_all
      qed
      also have "\<dots> \<le> of_nat (num div den) * 10 powi xp"
      proof -
        have "(of_nat (10 ^ prec ctx) :: rat) \<le> of_nat (num div den)"
          using coeff_big by (simp only: of_nat_le_iff)
        then show ?thesis by (intro mult_right_mono) simp_all
      qed
      also have "\<dots> \<le> of_nat num / of_nat den * 10 powi xp"
        using floor_le by (intro mult_right_mono) simp_all
      finally have "(of_nat m :: rat) * 10 powi j < of_nat num / of_nat den * 10 powi xp" .
      with quot_le show ?thesis by simp
    qed
    have up2: "(of_nat c2 :: rat) * 10 powi xp \<le> of_nat (num div den + 1) * 10 powi xp"
    proof -
      have "(of_nat c2 :: rat) \<le> of_nat (num div den + 1)" using c2_le by (simp only: of_nat_le_iff)
      then show ?thesis by (intro mult_right_mono) simp_all
    qed
    have "(of_nat c2 :: rat) * 10 powi xp \<le> of_nat m * 10 powi j"
      using up2 up1 by (rule order_trans)
    then have "mag \<lparr>d_sign = sg, d_int = c2, d_exp = xp\<rparr> \<le> of_nat m * 10 powi j"
      by (simp add: mag_def)
    then have "mag (Decimal_fix ctx \<lparr>d_sign = sg, d_int = c2, d_exp = xp\<rparr>) \<le> of_nat m * 10 powi j"
      using p m by (intro fix_bound)
    then show ?thesis using inexact p by (simp add: unfold fix_rep c2_def)
  qed
qed


lemma arctan_loop_stop:
  "arctan_body ctx x2 s = (d', t', Inr tta) \<Longrightarrow> Decimal_lt (Decimal_abs ctx tta) thr
     \<Longrightarrow> arctan_loop ctx x2 thr s = Some (Inr (snd (snd s)))"
  by (subst arctan_loop.simps) simp

lemma arctan_loop_next:
  "arctan_body ctx x2 s = (d', t', Inr tta) \<Longrightarrow> \<not> Decimal_lt (Decimal_abs ctx tta) thr
     \<Longrightarrow> arctan_loop ctx x2 thr s
           = arctan_loop ctx x2 thr (d', t', Decimal_add ctx (snd (snd s)) tta)"
  by (subst arctan_loop.simps) simp

lemma arctan_loop_error:
  "arctan_body ctx x2 s = (d', t', Inl e) \<Longrightarrow> arctan_loop ctx x2 thr s = Some (Inl e)"
  by (subst arctan_loop.simps) simp

lemma small_odd: "0 < p \<Longrightarrow> 2 * p + 3 < (10::nat) ^ p"
proof (induction p)
  case 0
  then show ?case by simp
next
  case (Suc p)
  show ?case
  proof (cases "p = 0")
    case True
    then show ?thesis by simp
  next
    case False
    with Suc have "2 * p + 3 < 10 ^ p" by simp
    then show ?thesis by simp
  qed
qed

lemma pow10_le_imp: "(10::rat) powi a \<le> 10 powi b \<Longrightarrow> a \<le> b"
proof (rule ccontr)
  assume h: "(10::rat) powi a \<le> 10 powi b" and "\<not> a \<le> b"
  then have "b < a" by simp
  then have "(10::rat) powi b < 10 powi a" by (intro power_int_strict_increasing) simp_all
  with h show False by simp
qed

lemma pow10_times: "(10::rat) powi a * 10 powi b = 10 powi (a + b)"
  by (rule power_int_add[symmetric]) simp

lemma body_step:
  assumes p: "0 < prec ctx" and x2: "mag x2 \<le> 10 powi (- 1)" "d_int x2 < 10 ^ prec ctx"
    and inv: "loop_inv ctx k s"
  shows "\<exists>t' tta. arctan_body ctx x2 s = (Decimal_of_int (int (2 * k + 3)), t', Inr tta)
           \<and> mag t' \<le> 10 powi (- int (k + 1)) \<and> mag tta \<le> 10 powi (- int (k + 1))
           \<and> d_int tta < 10 ^ prec ctx"
proof -
  obtain dv tm res where s: "s = (dv, tm, res)" by (cases s) auto
  have dv: "dv = Decimal_of_int (int (2 * k + 1))" and tm: "mag tm \<le> 10 powi (- int k)"
    and k: "k \<le> prec ctx" using inv by (simp_all add: loop_inv_def s)
  have "2 * k + 3 \<le> 2 * prec ctx + 3" using k by simp
  also have "\<dots> < 10 ^ prec ctx" using p by (rule small_odd)
  finally have small: "(2 * k + 1) + 2 < 10 ^ prec ctx" by simp
  have dv': "Decimal_add ctx dv (Decimal_of_int 2) = Decimal_of_int (int (2 * k + 3))"
    using add_two[OF small p] by (simp add: dv add.commute)
  define nx2 where "nx2 = Decimal_mul ctx x2 (Decimal_of_int (- 1))"
  have nx2: "mag nx2 \<le> 10 powi (- 1)"
    using x2 p by (simp add: nx2_def mul_minus_one mag_copy_negate)
  define t' where "t' = Decimal_mul ctx tm nx2"
  have one: "(1::nat) < 10 ^ prec ctx" using p by (intro one_less_power) simp_all
  have "mag tm * mag nx2 \<le> 10 powi (- int k) * 10 powi (- 1)"
    using tm nx2 by (intro mult_mono) (simp_all add: mag_nonneg)
  moreover have "- int k + - 1 = - int (k + 1)" by simp
  then have "(10::rat) powi (- int k) * 10 powi (- 1) = of_nat 1 * 10 powi (- int (k + 1))"
    by (simp only: pow10_times of_nat_1 mult_1)
  ultimately have "mag tm * mag nx2 \<le> of_nat 1 * 10 powi (- int (k + 1))"
    by (simp only:)
  then have t'b: "mag t' \<le> of_nat 1 * 10 powi (- int (k + 1))"
    unfolding t'_def using p one by (intro mul_bound)
  have dz: "d_int (Decimal_of_int (int (2 * k + 3))) \<noteq> 0" by (simp add: Decimal_of_int_def)
  have "(1::nat) \<le> 2 * k + 3" by simp
  then have "(of_nat 1 :: rat) \<le> of_nat (2 * k + 3)" by (simp only: of_nat_le_iff)
  then have "(1::rat) \<le> of_nat (2 * k + 3)" by (simp only: of_nat_1)
  then have ge1: "1 \<le> mag (Decimal_of_int (int (2 * k + 3)))" by (simp only: mag_of_nat)
  have A: "of_nat 1 * 10 powi (- int (k + 1)) * 1 \<le>
          of_nat 1 * 10 powi (- int (k + 1)) * mag (Decimal_of_int (int (2 * k + 3)))"
    using ge1 by (intro mult_left_mono) simp_all
  have B: "mag t' \<le> of_nat 1 * 10 powi (- int (k + 1)) * 1"
    using t'b by (simp only: mult_1_right)
  note C = order_trans[OF B A]
  from div_bound[OF p one dz C] obtain tta where
    tta: "Decimal_truediv ctx t' (Decimal_of_int (int (2 * k + 3))) = Inr tta"
      "mag tta \<le> of_nat 1 * 10 powi (- int (k + 1))" "d_int tta < 10 ^ prec ctx" by blast
  have "arctan_body ctx x2 s = (Decimal_of_int (int (2 * k + 3)), t', Inr tta)"
    by (simp only: arctan_body_def s Let_def prod.case dv' nx2_def[symmetric] t'_def[symmetric]
          tta(1))
  with t'b tta show ?thesis by auto
qed

lemma loop_inv_step:
  assumes p: "0 < prec ctx" and x2: "mag x2 \<le> 10 powi (- 1)" "d_int x2 < 10 ^ prec ctx"
    and inv: "loop_inv ctx k s"
    and body: "arctan_body ctx x2 s = (d', t', Inr tta)"
    and cont: "\<not> Decimal_lt (Decimal_abs ctx tta) (Decimal_1e_minus (int (prec ctx)))"
  shows "loop_inv ctx (Suc k) (d', t', r')"
proof -
  from body_step[OF p x2 inv] body
  have d': "d' = Decimal_of_int (int (2 * k + 3))" and t': "mag t' \<le> 10 powi (- int (k + 1))"
    and tta: "mag tta \<le> 10 powi (- int (k + 1))" "d_int tta < 10 ^ prec ctx" by auto
  have "10 powi (- int (prec ctx)) \<le> mag tta"
    using cont tta(2) p by (simp add: lt_val abs_val val_1e_minus)
  with tta(1) have "(10::rat) powi (- int (prec ctx)) \<le> 10 powi (- int (k + 1))" by simp
  then have "- int (prec ctx) \<le> - int (k + 1)" by (rule pow10_le_imp)
  then have "Suc k \<le> prec ctx" by simp
  with d' t' show ?thesis by (simp add: loop_inv_def add.commute)
qed

lemma reach_inv:
  assumes p: "0 < prec ctx" and x2: "mag x2 \<le> 10 powi (- 1)" "d_int x2 < 10 ^ prec ctx"
    and s0: "loop_inv ctx 0 s0"
    and r: "arctan_reach ctx x2 (Decimal_1e_minus (int (prec ctx))) s0 s"
  shows "\<exists>k. loop_inv ctx k s"
  using r
proof (induction rule: arctan_reach.induct)
  case start
  then show ?case using s0 by blast
next
  case (step s d' t' tta)
  then obtain k where "loop_inv ctx k s" by blast
  from loop_inv_step[OF p x2 this step.hyps(2) step.hyps(3)] show ?case by blast
qed

lemma loop_returns:
  assumes p: "0 < prec ctx" and x2: "mag x2 \<le> 10 powi (- 1)" "d_int x2 < 10 ^ prec ctx"
  shows "loop_inv ctx k s \<Longrightarrow> n = Suc (prec ctx) - k
     \<Longrightarrow> \<exists>r. arctan_loop ctx x2 (Decimal_1e_minus (int (prec ctx))) s = Some (Inr r)"
proof (induction n arbitrary: k s)
  case 0
  then show ?case by (simp add: loop_inv_def)
next
  case (Suc n)
  from body_step[OF p x2 Suc.prems(1)] obtain t' tta where
    body: "arctan_body ctx x2 s = (Decimal_of_int (int (2 * k + 3)), t', Inr tta)" by blast
  show ?case
  proof (cases "Decimal_lt (Decimal_abs ctx tta) (Decimal_1e_minus (int (prec ctx)))")
    case True
    with body show ?thesis by (simp add: arctan_loop_stop)
  next
    case False
    have inv': "loop_inv ctx (Suc k) (Decimal_of_int (int (2 * k + 3)), t',
                                       Decimal_add ctx (snd (snd s)) tta)"
      using loop_inv_step[OF p x2 Suc.prems(1) body False] .
    have "n = Suc (prec ctx) - Suc k" using Suc.prems(2) by simp
    from Suc.IH[OF inv' this] show ?thesis using body False by (simp add: arctan_loop_next)
  qed
qed


lemma set_prec_ok: "1 \<le> p \<Longrightarrow> set_prec p ctx = Inr \<lparr>prec = nat p\<rparr>"
  by (simp add: set_prec_def)

lemma at_prec_ctx: "at_prec (prec ctx) = ctx"
  by (simp add: at_prec_def)

lemma truediv_rep:
  "Decimal_truediv ctx a b = Inr q \<Longrightarrow> 0 < prec ctx \<Longrightarrow> d_int q < 10 ^ prec ctx"
  by (auto simp: Decimal_truediv_def Let_def fix_rep split: if_splits prod.splits)

lemma mag_one: "mag (Decimal_of_int 1) = 1"
  by (simp add: mag_def Decimal_of_int_def)

lemma tenth: "(10::rat) powi (- 1) = 1 / 10"
  by (simp add: power_int_minus_divide)

text \<open>the reciprocal of a base b \<ge> 4 is at most 0.3, its square at most 0.1\<close>

lemma reciprocal_bound:
  assumes p: "0 < prec ctx" and b: "4 \<le> b"
  shows "\<exists>x. Decimal_truediv ctx (Decimal_of_int 1) (Decimal_of_int (int b)) = Inr x
           \<and> mag x \<le> 3 / 10 \<and> d_int x < 10 ^ prec ctx"
proof -
  have three: "(3::nat) < 10 ^ prec ctx"
  proof -
    have "(10::nat) ^ 1 \<le> 10 ^ prec ctx" using p by (intro power_increasing) simp_all
    then show ?thesis by simp
  qed
  have bz: "d_int (Decimal_of_int (int b)) \<noteq> 0" using b by (simp add: Decimal_of_int_def)
  have "(of_nat 4 :: rat) \<le> of_nat b" using b by (simp only: of_nat_le_iff)
  then have "(4::rat) \<le> of_nat b" by simp
  then have "(1::rat) \<le> of_nat 3 * (1 / 10) * of_nat b" by simp
  then have "mag (Decimal_of_int 1) \<le> of_nat 3 * 10 powi (- 1) * mag (Decimal_of_int (int b))"
    by (simp only: mag_one mag_of_nat tenth)
  from div_bound[OF p three bz this] obtain x where
    "Decimal_truediv ctx (Decimal_of_int 1) (Decimal_of_int (int b)) = Inr x"
    "mag x \<le> of_nat 3 * 10 powi (- 1)" "d_int x < 10 ^ prec ctx" by blast
  moreover have "(of_nat 3 :: rat) * 10 powi (- 1) = 3 / 10" by (simp add: tenth)
  ultimately show ?thesis by auto
qed

lemma square_bound:
  assumes p: "0 < prec ctx" and x: "mag x \<le> 3 / 10"
  shows "mag (Decimal_mul ctx x x) \<le> 10 powi (- 1)"
proof -
  have one: "(1::nat) < 10 ^ prec ctx" using p by (intro one_less_power) simp_all
  have "mag x * mag x \<le> (3 / 10) * (3 / 10)"
    using x by (intro mult_mono) (simp_all add: mag_nonneg)
  also have "\<dots> \<le> of_nat 1 * 10 powi (- 1)" by (simp add: tenth)
  finally have "mag (Decimal_mul ctx x x) \<le> of_nat 1 * 10 powi (- 1)"
    using p one by (intro mul_bound)
  then show ?thesis by simp
qed

lemma initial_inv: "mag x \<le> 3 / 10 \<Longrightarrow> loop_inv ctx 0 (Decimal_of_int 1, x, x)"
  by (simp add: loop_inv_def)

lemma arctan_py_returns:
  assumes s: "Decimal_of_str s = Inr (Decimal_of_int (int b))" and b: "4 \<le> b"
    and scale: "1 \<le> scale"
  shows "\<exists>r. arctan_py s scale ctx0 = Some (Inr (r, \<lparr>prec = nat scale\<rparr>))"
proof -
  define ctx where "ctx = \<lparr>prec = nat scale\<rparr>"
  have p: "0 < prec ctx" and pi: "int (prec ctx) = scale" using scale by (simp_all add: ctx_def)
  from reciprocal_bound[OF p b] obtain x where
    x: "Decimal_truediv ctx (Decimal_of_int 1) (Decimal_of_int (int b)) = Inr x"
      "mag x \<le> 3 / 10" "d_int x < 10 ^ prec ctx" by blast
  have x2: "mag (Decimal_mul ctx x x) \<le> 10 powi (- 1)" using p x(2) by (rule square_bound)
  have x2r: "d_int (Decimal_mul ctx x x) < 10 ^ prec ctx" using p by (rule mul_rep)
  from loop_returns[OF p x2 x2r initial_inv[OF x(2)] refl] obtain r where
    "arctan_loop ctx (Decimal_mul ctx x x) (Decimal_1e_minus (int (prec ctx)))
       (Decimal_of_int 1, x, x) = Some (Inr r)" by blast
  then have "arctan_py s scale ctx0 = Some (Inr (r, ctx))"
    using scale s x(1) by (simp add: arctan_py_def set_prec_ok ctx_def[symmetric] pi Let_def)
  then show ?thesis by (auto simp: ctx_def)
qed

lemma str_5: "Decimal_of_str ''5'' = Inr (Decimal_of_int (int 5))"
  by (simp add: Decimal_of_str_def Decimal_of_int_def is_digit_def digits_to_nat_def)

lemma str_239: "Decimal_of_str ''239'' = Inr (Decimal_of_int (int 239))"
  by (simp add: Decimal_of_str_def Decimal_of_int_def is_digit_def digits_to_nat_def)

lemma calculate_pi_returns:
  assumes "1 \<le> digits"
  shows "\<exists>v. calculate_pi digits ctx0 = Some (Inr (v, \<lparr>prec = nat digits\<rparr>))"
proof -
  have sc: "1 \<le> digits + 10" using assms by simp
  from arctan_py_returns[OF str_5 _ sc] obtain t1 where
    t1: "arctan_py ''5'' (digits + 10) \<lparr>prec = nat (digits + 10)\<rparr>
           = Some (Inr (t1, \<lparr>prec = nat (digits + 10)\<rparr>))" by auto
  from arctan_py_returns[OF str_239 _ sc] obtain t2 where
    t2: "arctan_py ''239'' (digits + 10) \<lparr>prec = nat (digits + 10)\<rparr>
           = Some (Inr (t2, \<lparr>prec = nat (digits + 10)\<rparr>))" by auto
  show ?thesis using assms sc
    by (simp add: calculate_pi_def Let_def set_prec_ok t1 t2)
qed


lemma abs_exact:
  "d_int t < 10 ^ prec ctx \<Longrightarrow> 0 < prec ctx \<Longrightarrow> Decimal_abs ctx t = t\<lparr>d_sign := False\<rparr>"
  by (simp add: Decimal_abs_def fix_id)

lemma body_as_spec:
  assumes "0 < prec ctx"
  shows "arctan_body ctx (Decimal_mul ctx x x) (dv, tm, res) =
     (Decimal_add ctx dv (Decimal_of_int 2),
      Decimal_mul ctx tm (copy_negate (Decimal_mul ctx x x)),
      Decimal_truediv ctx (Decimal_mul ctx tm (copy_negate (Decimal_mul ctx x x)))
        (Decimal_add ctx dv (Decimal_of_int 2)))"
  using assms by (simp add: arctan_body_def Let_def mul_minus_one mul_rep)

lemma loop_refines_1:
  assumes "arctan_loop ctx x2 thr s = Some y"
  shows "\<forall>x scale. 0 < prec ctx \<longrightarrow> x2 = Decimal_mul ctx x x \<longrightarrow> thr = Decimal_1e_minus scale
           \<longrightarrow> series_loop (prec ctx) x scale s = Some y"
proof (rule arctan_loop.raw_induct[OF _ assms])
  fix f ctx x2 thr s y
  assume IH: "\<And>x2 thr s b y. f x2 thr s b = Some y \<Longrightarrow>
     \<forall>x scale. 0 < prec x2 \<longrightarrow> thr = Decimal_mul x2 x x \<longrightarrow> s = Decimal_1e_minus scale
       \<longrightarrow> series_loop (prec x2) x scale b = Some y"
    and body0: "(case arctan_body ctx x2 s of
        (divisor', tm', Inl e) \<Rightarrow> Some (Inl e)
      | (divisor', tm', Inr term_to_add) \<Rightarrow>
          if Decimal_lt (Decimal_abs ctx term_to_add) thr
          then Some (Inr (snd (snd s)))
          else f ctx x2 thr (divisor', tm', Decimal_add ctx (snd (snd s)) term_to_add)) = Some y"
  show "\<forall>x scale. 0 < prec ctx \<longrightarrow> x2 = Decimal_mul ctx x x \<longrightarrow> thr = Decimal_1e_minus scale
           \<longrightarrow> series_loop (prec ctx) x scale s = Some y"
  proof (intro allI impI)
    fix x scale
    assume p: "0 < prec ctx" and x2: "x2 = Decimal_mul ctx x x" and thr: "thr = Decimal_1e_minus scale"
    obtain dv tm res where s: "s = (dv, tm, res)" by (cases s) auto
    define dv' where "dv' = Decimal_add ctx dv (Decimal_of_int 2)"
    define tm' where "tm' = Decimal_mul ctx tm (copy_negate (Decimal_mul ctx x x))"
    have b: "arctan_body ctx x2 (dv, tm, res) = (dv', tm', Decimal_truediv ctx tm' dv')"
      unfolding x2 dv'_def tm'_def using p by (rule body_as_spec)
    note body = body0[unfolded s b prod.case snd_conv fst_conv]
    have unf: "series_loop (prec ctx) x scale (dv, tm, res) =
       (case Decimal_truediv ctx tm' dv' of
          Inl e \<Rightarrow> Some (Inl e)
        | Inr tta \<Rightarrow>
            if Decimal_lt (tta\<lparr>d_sign := False\<rparr>) (Decimal_1e_minus scale)
            then Some (Inr res)
            else series_loop (prec ctx) x scale (dv', tm', Decimal_add ctx res tta))"
      by (subst series_loop.simps)
         (simp only: at_prec_ctx Let_def fst_conv snd_conv dv'_def tm'_def)
    show "series_loop (prec ctx) x scale s = Some y"
    proof (cases "Decimal_truediv ctx tm' dv'")
      case (Inl e)
      have "y = Inl e" using body unfolding Inl by simp
      then show ?thesis unfolding s unf Inl by simp
    next
      case (Inr tta)
      have rep: "d_int tta < 10 ^ prec ctx" using Inr p by (rule truediv_rep)
      have ab: "Decimal_abs ctx tta = tta\<lparr>d_sign := False\<rparr>" using rep p by (rule abs_exact)
      show ?thesis
      proof (cases "Decimal_lt (tta\<lparr>d_sign := False\<rparr>) thr")
        case True
        have "y = Inr res" using body True by (simp add: Inr ab)
        then show ?thesis using True unfolding s unf Inr thr by simp
      next
        case False
        then have "f ctx x2 thr (dv', tm', Decimal_add ctx res tta) = Some y"
          using body by (simp add: Inr ab)
        from IH[OF this] p x2 thr
        have "series_loop (prec ctx) x scale (dv', tm', Decimal_add ctx res tta) = Some y" by simp
        then show ?thesis using False unfolding s unf Inr thr by simp
      qed
    qed
  qed
qed

lemma loop_refines_2:
  assumes "series_loop P x scale s = Some y"
  shows "0 < P \<longrightarrow> arctan_loop (at_prec P) (Decimal_mul (at_prec P) x x) (Decimal_1e_minus scale)
           s = Some y"
proof (rule series_loop.raw_induct[OF _ assms])
  fix f P x scale s y
  assume IH: "\<And>x scale s b y. f x scale s b = Some y \<Longrightarrow>
     0 < x \<longrightarrow> arctan_loop (at_prec x) (Decimal_mul (at_prec x) scale scale) (Decimal_1e_minus s)
           b = Some y"
    and body0: "(let divisor' = Decimal_add (at_prec P) (fst s) (Decimal_of_int 2);
          tm' = Decimal_mul (at_prec P) (fst (snd s)) (copy_negate (Decimal_mul (at_prec P) x x))
      in case Decimal_truediv (at_prec P) tm' divisor' of
           Inl e \<Rightarrow> Some (Inl e)
         | Inr termToAdd \<Rightarrow>
             if Decimal_lt (termToAdd\<lparr>d_sign := False\<rparr>) (Decimal_1e_minus scale)
             then Some (Inr (snd (snd s)))
             else f P x scale (divisor', tm', Decimal_add (at_prec P) (snd (snd s)) termToAdd))
        = Some y"
  show "0 < P \<longrightarrow> arctan_loop (at_prec P) (Decimal_mul (at_prec P) x x) (Decimal_1e_minus scale)
           s = Some y"
  proof
    assume P: "0 < P"
    define ctx where "ctx = at_prec P"
    have p: "0 < prec ctx" using P by (simp add: ctx_def at_prec_def)
    obtain dv tm res where s: "s = (dv, tm, res)" by (cases s) auto
    define dv' where "dv' = Decimal_add ctx dv (Decimal_of_int 2)"
    define tm' where "tm' = Decimal_mul ctx tm (copy_negate (Decimal_mul ctx x x))"
    have b: "arctan_body ctx (Decimal_mul ctx x x) (dv, tm, res)
               = (dv', tm', Decimal_truediv ctx tm' dv')"
      unfolding dv'_def tm'_def using p by (rule body_as_spec)
    note body = body0[unfolded s Let_def fst_conv snd_conv, folded ctx_def, folded dv'_def tm'_def]
    show "arctan_loop (at_prec P) (Decimal_mul (at_prec P) x x) (Decimal_1e_minus scale) s = Some y"
      unfolding ctx_def[symmetric] s
    proof (cases "Decimal_truediv ctx tm' dv'")
      case (Inl e)
      then have "y = Inl e" using body by simp
      then show "arctan_loop ctx (Decimal_mul ctx x x) (Decimal_1e_minus scale) (dv, tm, res) = Some y"
        using b Inl by (simp add: arctan_loop_error)
    next
      case (Inr tta)
      have rep: "d_int tta < 10 ^ prec ctx" using Inr p by (rule truediv_rep)
      have ab: "Decimal_abs ctx tta = tta\<lparr>d_sign := False\<rparr>" using rep p by (rule abs_exact)
      show "arctan_loop ctx (Decimal_mul ctx x x) (Decimal_1e_minus scale) (dv, tm, res) = Some y"
      proof (cases "Decimal_lt (tta\<lparr>d_sign := False\<rparr>) (Decimal_1e_minus scale)")
        case True
        then have "y = Inr res" using body Inr by simp
        moreover have "arctan_loop ctx (Decimal_mul ctx x x) (Decimal_1e_minus scale) (dv, tm, res)
                         = Some (Inr (snd (snd (dv, tm, res))))"
          using b[unfolded Inr] by (rule arctan_loop_stop) (simp add: ab True)
        ultimately show ?thesis by simp
      next
        case False
        then have "f P x scale (dv', tm', Decimal_add ctx res tta) = Some y"
          using body Inr by simp
        from IH[OF this] P
        have "arctan_loop ctx (Decimal_mul ctx x x) (Decimal_1e_minus scale)
                (dv', tm', Decimal_add ctx res tta) = Some y" by (simp add: ctx_def)
        moreover have "arctan_loop ctx (Decimal_mul ctx x x) (Decimal_1e_minus scale) (dv, tm, res)
             = arctan_loop ctx (Decimal_mul ctx x x) (Decimal_1e_minus scale)
                 (dv', tm', Decimal_add ctx (snd (snd (dv, tm, res))) tta)"
          using b[unfolded Inr] by (rule arctan_loop_next) (simp add: ab False)
        ultimately show ?thesis by simp
      qed
    qed
  qed
qed

lemma loop_refines:
  assumes "0 < P"
  shows "arctan_loop (at_prec P) (Decimal_mul (at_prec P) x x) (Decimal_1e_minus scale) s
           = series_loop P x scale s"
proof (cases "series_loop P x scale s")
  case (Some y)
  then show ?thesis using loop_refines_2[OF Some] assms by simp
next
  case None
  show ?thesis
  proof (cases "arctan_loop (at_prec P) (Decimal_mul (at_prec P) x x) (Decimal_1e_minus scale) s")
    case n: None
    with None show ?thesis by simp
  next
    case (Some y)
    from loop_refines_1[OF Some] assms
    have "series_loop P x scale s = Some y" by (simp add: at_prec_def)
    with None show ?thesis by simp
  qed
qed

lemma arctan_py_refines:
  assumes s: "Decimal_of_str s = Inr (Decimal_of_int (int b))" and scale: "1 \<le> scale"
  shows "arctan_py s scale ctx0 =
     map_option (map_sum id (\<lambda>r. (r, at_prec (nat scale)))) (arctanSeries b scale)"
proof -
  have P: "0 < nat scale" using scale by simp
  have sp: "set_prec scale ctx0 = Inr (at_prec (nat scale))"
    using scale by (simp add: set_prec_ok at_prec_def)
  show ?thesis
  proof (cases "Decimal_truediv (at_prec (nat scale)) (Decimal_of_int 1) (Decimal_of_int (int b))")
    case (Inl e)
    then show ?thesis by (simp add: arctan_py_def arctanSeries_def sp s)
  next
    case (Inr x)
    then show ?thesis
      by (simp add: arctan_py_def arctanSeries_def sp s Let_def loop_refines[OF P]
               split: option.splits sum.splits)
  qed
qed

lemma calculate_pi_refines:
  assumes "1 \<le> digits"
  shows "calculate_pi digits ctx0 =
     map_option (map_sum id (\<lambda>v. (v, at_prec (nat digits)))) (computePi digits)"
proof -
  have sc: "1 \<le> digits + 10" using assms by simp
  have sp1: "\<And>c. set_prec (digits + 10) c = Inr (at_prec (nat (digits + 10)))"
    using sc by (simp add: set_prec_ok at_prec_def)
  have sp2: "\<And>c. set_prec digits c = Inr (at_prec (nat digits))"
    using assms by (simp add: set_prec_ok at_prec_def)
  show ?thesis
    by (simp add: calculate_pi_def computePi_def Let_def sp1 sp2
          arctan_py_refines[OF str_5 sc] arctan_py_refines[OF str_239 sc]
          split: option.splits sum.splits)
qed


lemma warm_up_runs:
  assumes "1 \<le> digits"
  shows "\<exists>ctx'. warm_up n digits ctx tr = Some (tr @ replicate n (Warm_up digits), Inr ctx')"
proof (induction n arbitrary: ctx tr)
  case 0
  show ?case by simp
next
  case (Suc n)
  from calculate_pi_returns[OF assms] obtain v where
    v: "calculate_pi digits ctx = Some (Inr (v, \<lparr>prec = nat digits\<rparr>))" by blast
  from Suc[of "\<lparr>prec = nat digits\<rparr>" "tr @ [Warm_up digits]"] obtain ctx' where
    "warm_up n digits \<lparr>prec = nat digits\<rparr> (tr @ [Warm_up digits])
       = Some ((tr @ [Warm_up digits]) @ replicate n (Warm_up digits), Inr ctx')" by blast
  then show ?case by (simp add: v replicate_app_Cons_same)
qed

lemma pool_map_runs:
  assumes "1 \<le> digits"
  shows "\<exists>vs. pool_map (replicate n digits) ctx tr
           = Some (tr @ replicate n (Task digits), Inr vs)"
proof (induction n arbitrary: tr)
  case 0
  show ?case by simp
next
  case (Suc n)
  from calculate_pi_returns[OF assms] obtain v where
    v: "calculate_pi digits ctx = Some (Inr (v, \<lparr>prec = nat digits\<rparr>))" by blast
  from Suc[of "tr @ [Task digits]"] obtain vs where
    "pool_map (replicate n digits) ctx (tr @ [Task digits])
       = Some ((tr @ [Task digits]) @ replicate n (Task digits), Inr vs)" by blast
  then show ?case by (simp add: v replicate_app_Cons_same)
qed

lemma int_trunc_tenth: "0 \<le> r \<Longrightarrow> int_trunc (of_int r * (1 / 10)) = r div 10"
proof -
  assume "0 \<le> r"
  have "\<lfloor>(of_int r :: rat) / of_int 10\<rfloor> = r div 10" by (rule floor_divide_of_int_eq)
  then show ?thesis using \<open>0 \<le> r\<close> by (simp add: int_trunc_def)
qed

lemma parse_args_ok:
  "int_py a1 = Some digits \<Longrightarrow> int_py a2 = Some reps \<Longrightarrow> int_py a3 = Some procs
     \<Longrightarrow> 0 < digits \<Longrightarrow> 0 < reps \<Longrightarrow> 0 < procs
     \<Longrightarrow> parse_args a1 a2 a3 = Inr (digits, reps, procs)"
  by (simp add: parse_args_def)

lemma main_runs:
  assumes a: "int_py a1 = Some digits" "int_py a2 = Some reps" "int_py a3 = Some procs"
    and pos: "0 < digits" "0 < reps" "0 < procs"
    and t: "start_time \<noteq> end_time"
  shows "main [a0, a1, a2, a3] start_time end_time ctx0 =
     Some \<lparr>exit_status = 0,
           stdout = [\<lparr>r_digits = digits, r_reps_per_thread = reps, r_threads = procs,
                      r_total_time_ms = (end_time - start_time) * 1000,
                      r_calcs_per_sec = of_int (reps * procs) / (end_time - start_time)\<rparr>],
           stderr = [],
           events = replicate (nat (max 1 (reps div 10))) (Warm_up digits) @ [Timer_start]
                      @ replicate (nat (reps * procs)) (Task digits) @ [Timer_stop]\<rparr>"
proof -
  have d: "1 \<le> digits" using pos by simp
  have "int_trunc (of_int reps * (1 / 10)) = reps div 10" using pos by (intro int_trunc_tenth) simp
  then have w: "int_trunc (of_int reps / 10) = reps div 10" by simp
  from warm_up_runs[OF d, of "nat (max 1 (reps div 10))" ctx0 "[]"] obtain ctx1 where
    w1: "warm_up (nat (max 1 (reps div 10))) digits ctx0 []
           = Some (replicate (nat (max 1 (reps div 10))) (Warm_up digits), Inr ctx1)" by auto
  from pool_map_runs[OF d, of "nat (reps * procs)" ctx1
        "replicate (nat (max 1 (reps div 10))) (Warm_up digits) @ [Timer_start]"] obtain vs where
    p1: "pool_map (replicate (nat (reps * procs)) digits) ctx1
           (replicate (nat (max 1 (reps div 10))) (Warm_up digits) @ [Timer_start])
         = Some ((replicate (nat (max 1 (reps div 10))) (Warm_up digits) @ [Timer_start])
                   @ replicate (nat (reps * procs)) (Task digits), Inr vs)" by blast
  show ?thesis using t
    by (simp add: main_def parse_args_ok[OF a pos] Let_def w w1 p1)
qed

lemma main_rejects:
  assumes "length argv \<noteq> 4 \<or> (\<exists>e. parse_args (argv ! 1) (argv ! 2) (argv ! 3) = Inl e)"
  shows "\<exists>errs. errs \<noteq> [] \<and> main argv start_time end_time ctx0
           = Some \<lparr>exit_status = 1, stdout = [], stderr = errs, events = []\<rparr>"
  using assms by (auto simp: main_def)

lemma parse_args_fails:
  assumes "(case int_py a1 of None \<Rightarrow> True | Some n \<Rightarrow> n \<le> 0)
         \<or> (case int_py a2 of None \<Rightarrow> True | Some n \<Rightarrow> n \<le> 0)
         \<or> (case int_py a3 of None \<Rightarrow> True | Some n \<Rightarrow> n \<le> 0)"
  shows "\<exists>e. parse_args a1 a2 a3 = Inl e"
  using assms by (auto simp: parse_args_def split: option.splits)

lemma arctanSeries_returns:
  assumes s: "Decimal_of_str s = Inr (Decimal_of_int (int b))" and b: "4 \<le> b"
    and scale: "1 \<le> scale"
  shows "\<exists>t. arctanSeries b scale = Some (Inr t)"
proof -
  from arctan_py_returns[OF s b scale, of default_context] obtain r where
    "arctan_py s scale default_context = Some (Inr (r, \<lparr>prec = nat scale\<rparr>))" by blast
  then have m: "map_option (map_sum id (\<lambda>r. (r, at_prec (nat scale)))) (arctanSeries b scale)
                 = Some (Inr (r, \<lparr>prec = nat scale\<rparr>))"
    by (simp only: arctan_py_refines[OF s scale])
  show ?thesis
  proof (cases "arctanSeries b scale")
    case None
    with m show ?thesis by simp
  next
    case (Some y)
    show ?thesis
    proof (cases y)
      case (Inl e)
      with m Some show ?thesis by simp
    next
      case (Inr t)
      with Some show ?thesis by simp
    qed
  qed
qed


lemma set_prec_any: "set_prec p ctx1 = set_prec p ctx2"
  by (simp add: set_prec_def)

lemma arctan_py_entry: "arctan_py s scale ctx1 = arctan_py s scale ctx2"
  by (simp add: arctan_py_def set_prec_any[of scale ctx1 ctx2])

lemma calculate_pi_entry: "calculate_pi digits ctx1 = calculate_pi digits ctx2"
  by (simp add: calculate_pi_def set_prec_any[of "digits + 10" ctx1 ctx2])

lemma arctan_py_leaves:
  "arctan_py s scale ctx0 = Some (Inr (r, ctx')) \<Longrightarrow> 1 \<le> scale \<and> ctx' = \<lparr>prec = nat scale\<rparr>"
  by (auto simp: arctan_py_def set_prec_def Let_def split: if_splits sum.splits option.splits)

lemma truediv_zero:
  "d_int z = 0 \<Longrightarrow> Decimal_truediv ctx a z
     = Inl (if d_int a = 0 then InvalidOperation else DivisionByZero)"
  by (simp add: Decimal_truediv_def)

lemma third_default:
  "Decimal_truediv default_context (Decimal_of_int 1) (Decimal_of_int 3)
     = Inr \<lparr>d_sign = False, d_int = 3333333333333333333333333333, d_exp = - 28\<rparr>"
  by (simp add: Decimal_truediv_def Decimal_of_int_def default_context_def Decimal_fix_def
        ndigits.simps Let_def)

lemma third_one:
  "Decimal_truediv \<lparr>prec = 1\<rparr> (Decimal_of_int 1) (Decimal_of_int 3)
     = Inr \<lparr>d_sign = False, d_int = 3, d_exp = - 1\<rparr>"
  by (simp add: Decimal_truediv_def Decimal_of_int_def Decimal_fix_def ndigits.simps Let_def)

text \<open>the divisions the loop performs, for the loop as arctan starts it\<close>

lemma reach_divisor:
  assumes p: "0 < prec ctx" and x: "mag x \<le> 3 / 10"
    and r: "arctan_reach ctx (Decimal_mul ctx x x) (Decimal_1e_minus (int (prec ctx)))
              (Decimal_of_int 1, x, x) st"
  shows "\<exists>k t. fst st = Decimal_of_int (2 * int k + 1)
           \<and> fst (arctan_body ctx (Decimal_mul ctx x x) st) = Decimal_of_int (2 * int k + 3)
           \<and> snd (snd (arctan_body ctx (Decimal_mul ctx x x) st)) = Inr t"
proof -
  have x2: "mag (Decimal_mul ctx x x) \<le> 10 powi (- 1)" using p x by (rule square_bound)
  have x2r: "d_int (Decimal_mul ctx x x) < 10 ^ prec ctx" using p by (rule mul_rep)
  from reach_inv[OF p x2 x2r initial_inv[OF x] r] obtain k where k: "loop_inv ctx k st" by blast
  from body_step[OF p x2 x2r k] obtain t' tta where
    "arctan_body ctx (Decimal_mul ctx x x) st = (Decimal_of_int (int (2 * k + 3)), t', Inr tta)"
    by blast
  moreover have "fst st = Decimal_of_int (int (2 * k + 1))" using k by (simp add: loop_inv_def)
  moreover have "int (2 * k + 3) = 2 * int k + 3" "int (2 * k + 1) = 2 * int k + 1" by simp_all
  ultimately show ?thesis by (metis fst_conv snd_conv)
qed

lemma reach_same_result:
  "arctan_reach ctx x2 thr s0 s \<Longrightarrow> arctan_loop ctx x2 thr s0 = arctan_loop ctx x2 thr s"
proof (induction rule: arctan_reach.induct)
  case start
  show ?case by simp
next
  case (step s d' t' tta)
  then show ?case by (simp add: arctan_loop_next)
qed


section \<open>The Pi calculator follows the two-phase Machin algorithm\<close>

text \<open>
  Claim C2.  For every \<open>digits \<ge> 1\<close>, \<^verbatim>\<open>calculate_pi(digits)\<close> is the two-phase algorithm of
  the specification: with \<open>scale = digits + 10\<close> it takes \<open>t1 = arctanSeries(5, scale)\<close> and
  \<open>t2 = arctanSeries(239, scale)\<close>, both of which return, forms \<open>t1\<times>16 \<minus> t2\<times>4\<close> with every
  operation at precision \<open>scale\<close>, and returns that value rounded again at precision
  \<open>digits\<close>, so with at most \<open>digits\<close> significant digits.  As a whole, the function is
  \<open>computePi\<close>, the algorithm with the precision passed explicitly to each operation.
\<close>

theorem calculate_pi_two_phase:
  "1 \<le> digits \<Longrightarrow>
     (\<exists>t1 t2. arctanSeries 5 (digits + 10) = Some (Inr t1)
        \<and> arctanSeries 239 (digits + 10) = Some (Inr t2)
        \<and> calculate_pi digits ctx0 =
            Some (Inr (Decimal_pos (at_prec (nat digits))
                         (Decimal_sub (at_prec (nat (digits + 10)))
                            (Decimal_mul (at_prec (nat (digits + 10))) t1 (Decimal_of_int 16))
                            (Decimal_mul (at_prec (nat (digits + 10))) t2 (Decimal_of_int 4))),
                       at_prec (nat digits)))
        \<and> d_int (Decimal_pos (at_prec (nat digits))
                         (Decimal_sub (at_prec (nat (digits + 10)))
                            (Decimal_mul (at_prec (nat (digits + 10))) t1 (Decimal_of_int 16))
                            (Decimal_mul (at_prec (nat (digits + 10))) t2 (Decimal_of_int 4))))
              < 10 ^ nat digits)
   \<and> calculate_pi digits ctx0
        = map_option (map_sum id (\<lambda>v. (v, at_prec (nat digits)))) (computePi digits)"
proof -
  assume d: "1 \<le> digits"
  then have sc: "1 \<le> digits + 10" by simp
  have p: "0 < prec (at_prec (nat digits))" using d by (simp add: at_prec_def)
  from arctanSeries_returns[OF str_5 _ sc] obtain t1 where
    t1: "arctanSeries 5 (digits + 10) = Some (Inr t1)" by auto
  from arctanSeries_returns[OF str_239 _ sc] obtain t2 where
    t2: "arctanSeries 239 (digits + 10) = Some (Inr t2)" by auto
  have ref: "calculate_pi digits ctx0
        = map_option (map_sum id (\<lambda>v. (v, at_prec (nat digits)))) (computePi digits)"
    using d by (rule calculate_pi_refines)
  have val: "computePi digits =
            Some (Inr (Decimal_pos (at_prec (nat digits))
                         (Decimal_sub (at_prec (nat (digits + 10)))
                            (Decimal_mul (at_prec (nat (digits + 10))) t1 (Decimal_of_int 16))
                            (Decimal_mul (at_prec (nat (digits + 10))) t2 (Decimal_of_int 4)))))"
    by (simp add: computePi_def Let_def t1 t2)
  have small: "d_int (Decimal_pos (at_prec (nat digits))
                         (Decimal_sub (at_prec (nat (digits + 10)))
                            (Decimal_mul (at_prec (nat (digits + 10))) t1 (Decimal_of_int 16))
                            (Decimal_mul (at_prec (nat (digits + 10))) t2 (Decimal_of_int 4))))
              < 10 ^ nat digits"
    using fix_rep[OF p] by (simp add: Decimal_pos_def at_prec_def)
  show ?thesis using t1 t2 ref val small by (simp only: option.map map_sum.simps id_apply) blast
qed

theorem calculate_pi_two_phase_witness:
  "(1::int) \<le> 10 \<and>
   ((\<exists>t1 t2. arctanSeries 5 (10 + 10) = Some (Inr t1)
        \<and> arctanSeries 239 (10 + 10) = Some (Inr t2)
        \<and> calculate_pi 10 default_context =
            Some (Inr (Decimal_pos (at_prec (nat 10))
                         (Decimal_sub (at_prec (nat (10 + 10)))
                            (Decimal_mul (at_prec (nat (10 + 10))) t1 (Decimal_of_int 16))
                            (Decimal_mul (at_prec (nat (10 + 10))) t2 (Decimal_of_int 4))),
                       at_prec (nat 10)))
        \<and> d_int (Decimal_pos (at_prec (nat 10))
                         (Decimal_sub (at_prec (nat (10 + 10)))
                            (Decimal_mul (at_prec (nat (10 + 10))) t1 (Decimal_of_int 16))
                            (Decimal_mul (at_prec (nat (10 + 10))) t2 (Decimal_of_int 4))))
              < 10 ^ nat 10)
   \<and> calculate_pi 10 default_context
        = map_option (map_sum id (\<lambda>v. (v, at_prec (nat 10)))) (computePi 10))"
proof -
  have h: "(1::int) \<le> 10" by simp
  show ?thesis by (rule conjI[OF h calculate_pi_two_phase[OF h]])
qed

section \<open>The series evaluator is the restructured Taylor series\<close>

text \<open>
  Claim C3.  For every base \<open>b \<ge> 2\<close>, written as a string of digits, and every
  \<open>scale \<ge> 1\<close>, \<^verbatim>\<open>arctan(b, scale)\<close> is exactly \<open>arctanSeries\<close>, the series of the
  specification: \<open>x = 1/b\<close>; term and result start at \<open>x\<close> and the divisor at 1; each round
  adds 2 to the divisor, multiplies the term by \<open>\<minus>x\<^sup>2\<close>, divides it by the divisor, and
  either stops without adding (magnitude below \<open>10\<^sup>\<minus>\<^sup>s\<^sup>c\<^sup>a\<^sup>l\<^sup>e\<close>) or adds and goes on.  The
  equation is between results with errors and non-termination included.
\<close>

theorem arctan_implements_series:
  "Decimal_of_str s = Inr (Decimal_of_int (int b)) \<Longrightarrow> 2 \<le> b \<Longrightarrow> 1 \<le> scale \<Longrightarrow>
     arctan_py s scale ctx0
       = map_option (map_sum id (\<lambda>r. (r, at_prec (nat scale)))) (arctanSeries b scale)"
  by (rule arctan_py_refines)

theorem arctan_implements_series_witness:
  "Decimal_of_str ''239'' = Inr (Decimal_of_int (int 239)) \<and> (2::nat) \<le> 239 \<and> (1::int) \<le> 12 \<and>
     arctan_py ''239'' 12 default_context
       = map_option (map_sum id (\<lambda>r. (r, at_prec (nat 12)))) (arctanSeries 239 12)"
proof -
  have h2: "(2::nat) \<le> 239" by simp
  have h3: "(1::int) \<le> 12" by simp
  show ?thesis
    by (intro conjI str_239 h2 h3 arctan_implements_series[OF str_239 h2 h3])
qed

section \<open>Termination of the series loop\<close>

text \<open>
  Claim C4.  For the two bases the program uses, 5 and 239, and every \<open>scale \<ge> 1\<close>, the
  call \<^verbatim>\<open>arctan(b, scale)\<close> returns: its magnitude-based loop, which has no iteration bound,
  does not run forever (and raises nothing).  The value \<open>None\<close> of the model is the loop
  that never leaves, so returning is being \<open>Some\<close> result.
\<close>

theorem arctan_terminates:
  "1 \<le> scale \<Longrightarrow>
     (\<exists>r ctx'. arctan_py ''5'' scale ctx0 = Some (Inr (r, ctx')))
   \<and> (\<exists>r ctx'. arctan_py ''239'' scale ctx0 = Some (Inr (r, ctx')))"
proof -
  assume sc: "1 \<le> scale"
  have "\<exists>r. arctan_py ''5'' scale ctx0 = Some (Inr (r, \<lparr>prec = nat scale\<rparr>))"
    using str_5 _ sc by (rule arctan_py_returns) simp
  moreover have "\<exists>r. arctan_py ''239'' scale ctx0 = Some (Inr (r, \<lparr>prec = nat scale\<rparr>))"
    using str_239 _ sc by (rule arctan_py_returns) simp
  ultimately show ?thesis by blast
qed

theorem arctan_terminates_witness:
  "(1::int) \<le> 2000
   \<and> (\<exists>r ctx'. arctan_py ''5'' 2000 default_context = Some (Inr (r, ctx')))
   \<and> (\<exists>r ctx'. arctan_py ''239'' 2000 default_context = Some (Inr (r, ctx')))"
  using arctan_terminates [of 2000 default_context] by simp


section \<open>Precision is state of the decimal context\<close>

text \<open>
  Claim C5, as stated: the working precision is handed to every operation explicitly, and
  no operation of \<^verbatim>\<open>arctan\<close> or \<^verbatim>\<open>calculate_pi\<close> reads or writes implicit global precision
  state.  The code does the opposite.  \<^verbatim>\<open>calculate_pi(1)\<close>, called in the default context
  (precision 28), returns with the precision of that context set to 1, and one and the same
  division \<open>1 / 3\<close> gives 28 digits before the call and one digit after it: the operations
  read the state the call wrote.
\<close>

theorem explicit_precision_counterexample:
  "map_option (map_sum id snd) (calculate_pi 1 default_context) = Some (Inr \<lparr>prec = 1\<rparr>)
   \<and> default_context = \<lparr>prec = 28\<rparr>
   \<and> Decimal_truediv default_context (Decimal_of_int 1) (Decimal_of_int 3)
        = Inr \<lparr>d_sign = False, d_int = 3333333333333333333333333333, d_exp = - 28\<rparr>
   \<and> Decimal_truediv \<lparr>prec = 1\<rparr> (Decimal_of_int 1) (Decimal_of_int 3)
        = Inr \<lparr>d_sign = False, d_int = 3, d_exp = - 1\<rparr>"
proof -
  have "(1::int) \<le> 1" by simp
  from calculate_pi_returns[OF this, of default_context] obtain v where
    "calculate_pi 1 default_context = Some (Inr (v, \<lparr>prec = nat 1\<rparr>))" by blast
  then have A: "map_option (map_sum id snd) (calculate_pi 1 default_context) = Some (Inr \<lparr>prec = 1\<rparr>)"
    by simp
  have B: "default_context = \<lparr>prec = 28\<rparr>" by (simp add: default_context_def)
  show ?thesis by (intro conjI A B third_default third_one)
qed

text \<open>
  Claim C5, amended.  The precision reaches the operations through the decimal context,
  and each of the two functions sets it there itself before its first operation
  (\<^verbatim>\<open>arctan\<close> to \<open>scale\<close>, \<^verbatim>\<open>calculate_pi\<close> to \<open>digits + 10\<close>): what a call returns and what it
  leaves in the context do not depend on the context in force when it is entered.
\<close>

theorem precision_set_by_the_call:
  "arctan_py s scale ctx1 = arctan_py s scale ctx2
   \<and> calculate_pi digits ctx1 = calculate_pi digits ctx2"
  using arctan_py_entry calculate_pi_entry by blast

section \<open>No division by zero\<close>

text \<open>
  Claim C9.  A division by a zero is a checked error of the engine: it returns an error
  value whatever the dividend.  Inside \<^verbatim>\<open>calculate_pi(digits)\<close>, \<open>digits \<ge> 1\<close>, it cannot
  happen: for each of the two bases, the string denotes a non-zero decimal and the
  reciprocal \<open>1 / x_inv\<close> is computed; in every state the loop reaches from its start
  \<open>(1, x, x)\<close> the divisor is an odd number \<open>2k + 1\<close>, the next division is by
  \<open>2k + 3\<close>, odd and at least 3, and it yields a value; and the whole call returns a value,
  not an error.
\<close>

theorem division_by_zero_unreachable:
  "(d_int z = 0 \<longrightarrow> (\<exists>e. Decimal_truediv c a z = Inl e))
   \<and> (1 \<le> digits \<and> (s = ''5'' \<or> s = ''239'') \<longrightarrow>
        (\<exists>x_inv x. Decimal_of_str s = Inr x_inv \<and> d_int x_inv \<noteq> 0
           \<and> Decimal_truediv (at_prec (nat (digits + 10))) (Decimal_of_int 1) x_inv = Inr x
           \<and> (\<forall>st. arctan_reach (at_prec (nat (digits + 10)))
                      (Decimal_mul (at_prec (nat (digits + 10))) x x)
                      (Decimal_1e_minus (digits + 10)) (Decimal_of_int 1, x, x) st \<longrightarrow>
                (\<exists>k t. fst st = Decimal_of_int (2 * int k + 1)
                   \<and> fst (arctan_body (at_prec (nat (digits + 10)))
                             (Decimal_mul (at_prec (nat (digits + 10))) x x) st)
                       = Decimal_of_int (2 * int k + 3)
                   \<and> snd (snd (arctan_body (at_prec (nat (digits + 10)))
                                  (Decimal_mul (at_prec (nat (digits + 10))) x x) st))
                       = Inr t)))
        \<and> (\<exists>v ctx'. calculate_pi digits ctx0 = Some (Inr (v, ctx'))))"
proof (intro conjI impI)
  assume "d_int z = 0"
  then show "\<exists>e. Decimal_truediv c a z = Inl e" by (simp add: truediv_zero)
next
  assume h: "1 \<le> digits \<and> (s = ''5'' \<or> s = ''239'')"
  define ctx where "ctx = at_prec (nat (digits + 10))"
  have p: "0 < prec ctx" and pi: "int (prec ctx) = digits + 10"
    using h by (simp_all add: ctx_def at_prec_def)
  from h have "s = ''5'' \<or> s = ''239''" by simp
  then obtain b :: nat where b: "Decimal_of_str s = Inr (Decimal_of_int (int b))" "4 \<le> b"
  proof
    assume "s = ''5''"
    then show ?thesis using that[of 5] str_5 by simp
  next
    assume "s = ''239''"
    then show ?thesis using that[of 239] str_239 by simp
  qed
  from reciprocal_bound[OF p b(2)] obtain x where
    x: "Decimal_truediv ctx (Decimal_of_int 1) (Decimal_of_int (int b)) = Inr x"
      "mag x \<le> 3 / 10" by blast
  have nz: "d_int (Decimal_of_int (int b)) \<noteq> 0" using b(2) by (simp add: Decimal_of_int_def)
  have R: "\<forall>st. arctan_reach ctx (Decimal_mul ctx x x) (Decimal_1e_minus (digits + 10))
                 (Decimal_of_int 1, x, x) st \<longrightarrow>
          (\<exists>k t. fst st = Decimal_of_int (2 * int k + 1)
             \<and> fst (arctan_body ctx (Decimal_mul ctx x x) st) = Decimal_of_int (2 * int k + 3)
             \<and> snd (snd (arctan_body ctx (Decimal_mul ctx x x) st)) = Inr t)"
    using reach_divisor[OF p x(2)] by (simp add: pi)
  from b(1) nz x(1) R
  show "\<exists>x_inv x. Decimal_of_str s = Inr x_inv \<and> d_int x_inv \<noteq> 0
           \<and> Decimal_truediv (at_prec (nat (digits + 10))) (Decimal_of_int 1) x_inv = Inr x
           \<and> (\<forall>st. arctan_reach (at_prec (nat (digits + 10)))
                      (Decimal_mul (at_prec (nat (digits + 10))) x x)
                      (Decimal_1e_minus (digits + 10)) (Decimal_of_int 1, x, x) st \<longrightarrow>
                (\<exists>k t. fst st = Decimal_of_int (2 * int k + 1)
                   \<and> fst (arctan_body (at_prec (nat (digits + 10)))
                             (Decimal_mul (at_prec (nat (digits + 10))) x x) st)
                       = Decimal_of_int (2 * int k + 3)
                   \<and> snd (snd (arctan_body (at_prec (nat (digits + 10)))
                                  (Decimal_mul (at_prec (nat (digits + 10))) x x) st))
                       = Inr t))"
    unfolding ctx_def
    by (intro exI[of _ "Decimal_of_int (int b)"] exI[of _ x] conjI)
next
  assume h: "1 \<le> digits \<and> (s = ''5'' \<or> s = ''239'')"
  then have "1 \<le> digits" by simp
  from calculate_pi_returns[OF this, of ctx0]
  show "\<exists>v ctx'. calculate_pi digits ctx0 = Some (Inr (v, ctx'))" by blast
qed

theorem division_by_zero_unreachable_witness:
  "(\<exists>e. Decimal_truediv default_context (Decimal_of_int 7) (Decimal_of_int 0) = Inl e)
   \<and> (\<exists>x_inv x. Decimal_of_str ''239'' = Inr x_inv \<and> d_int x_inv \<noteq> 0
           \<and> Decimal_truediv (at_prec (nat (1 + 10))) (Decimal_of_int 1) x_inv = Inr x
           \<and> (\<exists>k t. fst (Decimal_of_int 1, x, x) = Decimal_of_int (2 * int k + 1)
                   \<and> fst (arctan_body (at_prec (nat (1 + 10)))
                             (Decimal_mul (at_prec (nat (1 + 10))) x x) (Decimal_of_int 1, x, x))
                       = Decimal_of_int (2 * int k + 3)
                   \<and> snd (snd (arctan_body (at_prec (nat (1 + 10)))
                                  (Decimal_mul (at_prec (nat (1 + 10))) x x)
                                  (Decimal_of_int 1, x, x)))
                       = Inr t))
   \<and> (\<exists>v ctx'. calculate_pi 1 default_context = Some (Inr (v, ctx')))"
proof -
  note T = division_by_zero_unreachable
    [of "Decimal_of_int 0" default_context "Decimal_of_int 7" 1 "''239''" default_context]
  have z: "d_int (Decimal_of_int 0) = 0" by (simp add: Decimal_of_int_def)
  have h: "(1::int) \<le> 1 \<and> (''239'' = ''5'' \<or> ''239'' = ''239'')" by simp
  from T z have A: "\<exists>e. Decimal_truediv default_context (Decimal_of_int 7) (Decimal_of_int 0) = Inl e"
    by blast
  from T h obtain x_inv x where
    B: "Decimal_of_str ''239'' = Inr x_inv" "d_int x_inv \<noteq> 0"
       "Decimal_truediv (at_prec (nat (1 + 10))) (Decimal_of_int 1) x_inv = Inr x"
    and R: "\<forall>st. arctan_reach (at_prec (nat (1 + 10)))
                      (Decimal_mul (at_prec (nat (1 + 10))) x x)
                      (Decimal_1e_minus (1 + 10)) (Decimal_of_int 1, x, x) st \<longrightarrow>
                (\<exists>k t. fst st = Decimal_of_int (2 * int k + 1)
                   \<and> fst (arctan_body (at_prec (nat (1 + 10)))
                             (Decimal_mul (at_prec (nat (1 + 10))) x x) st)
                       = Decimal_of_int (2 * int k + 3)
                   \<and> snd (snd (arctan_body (at_prec (nat (1 + 10)))
                                  (Decimal_mul (at_prec (nat (1 + 10))) x x) st))
                       = Inr t)"
    by blast
  from T h have C: "\<exists>v ctx'. calculate_pi 1 default_context = Some (Inr (v, ctx'))" by blast
  have S: "arctan_reach (at_prec (nat (1 + 10))) (Decimal_mul (at_prec (nat (1 + 10))) x x)
          (Decimal_1e_minus (1 + 10)) (Decimal_of_int 1, x, x) (Decimal_of_int 1, x, x)"
    by (rule arctan_reach.start)
  have D: "\<exists>k t. fst (Decimal_of_int 1, x, x) = Decimal_of_int (2 * int k + 1)
                   \<and> fst (arctan_body (at_prec (nat (1 + 10)))
                             (Decimal_mul (at_prec (nat (1 + 10))) x x) (Decimal_of_int 1, x, x))
                       = Decimal_of_int (2 * int k + 3)
                   \<and> snd (snd (arctan_body (at_prec (nat (1 + 10)))
                                  (Decimal_mul (at_prec (nat (1 + 10))) x x)
                                  (Decimal_of_int 1, x, x)))
                       = Inr t" by (rule mp[OF spec[OF R] S])
  from B D have "\<exists>x_inv x. Decimal_of_str ''239'' = Inr x_inv \<and> d_int x_inv \<noteq> 0
           \<and> Decimal_truediv (at_prec (nat (1 + 10))) (Decimal_of_int 1) x_inv = Inr x
           \<and> (\<exists>k t. fst (Decimal_of_int 1, x, x) = Decimal_of_int (2 * int k + 1)
                   \<and> fst (arctan_body (at_prec (nat (1 + 10)))
                             (Decimal_mul (at_prec (nat (1 + 10))) x x) (Decimal_of_int 1, x, x))
                       = Decimal_of_int (2 * int k + 3)
                   \<and> snd (snd (arctan_body (at_prec (nat (1 + 10)))
                                  (Decimal_mul (at_prec (nat (1 + 10))) x x)
                                  (Decimal_of_int 1, x, x)))
                       = Inr t)"
    by (intro exI[of _ x_inv] exI[of _ x] conjI)
  with A C show ?thesis by (intro conjI)
qed

section \<open>The context a call leaves behind\<close>

text \<open>
  Claim C10.  Whenever \<^verbatim>\<open>arctan(b, scale)\<close> returns, the precision of the decimal context is
  \<open>scale\<close>; for the two bases of the program and \<open>scale \<ge> 1\<close> it does return.  For
  \<open>digits \<ge> 1\<close>, \<^verbatim>\<open>calculate_pi(digits)\<close> returns and leaves the precision \<open>digits\<close>.  The
  context in the result is the one every later operation of the caller is computed in.
\<close>

theorem context_left_modified:
  "(arctan_py s scale ctx0 = Some (Inr (r, ctx')) \<longrightarrow> prec ctx' = nat scale)
   \<and> (1 \<le> scale \<longrightarrow>
         (\<exists>r. arctan_py ''5'' scale ctx0 = Some (Inr (r, \<lparr>prec = nat scale\<rparr>)))
       \<and> (\<exists>r. arctan_py ''239'' scale ctx0 = Some (Inr (r, \<lparr>prec = nat scale\<rparr>))))
   \<and> (1 \<le> digits \<longrightarrow>
         (\<exists>v. calculate_pi digits ctx0 = Some (Inr (v, \<lparr>prec = nat digits\<rparr>))))"
proof (intro conjI impI)
  assume "arctan_py s scale ctx0 = Some (Inr (r, ctx'))"
  then show "prec ctx' = nat scale" by (auto dest: arctan_py_leaves)
next
  assume sc: "1 \<le> scale"
  show "\<exists>r. arctan_py ''5'' scale ctx0 = Some (Inr (r, \<lparr>prec = nat scale\<rparr>))"
    using str_5 _ sc by (rule arctan_py_returns) simp
  show "\<exists>r. arctan_py ''239'' scale ctx0 = Some (Inr (r, \<lparr>prec = nat scale\<rparr>))"
    using str_239 _ sc by (rule arctan_py_returns) simp
next
  assume "1 \<le> digits"
  then show "\<exists>v. calculate_pi digits ctx0 = Some (Inr (v, \<lparr>prec = nat digits\<rparr>))"
    by (rule calculate_pi_returns)
qed

theorem context_left_modified_witness:
  "(\<exists>r ctx'. arctan_py ''5'' 12 default_context = Some (Inr (r, ctx')) \<and> prec ctx' = nat 12)
   \<and> (\<exists>r. arctan_py ''239'' 12 default_context = Some (Inr (r, \<lparr>prec = nat 12\<rparr>)))
   \<and> (\<exists>v. calculate_pi 2 default_context = Some (Inr (v, \<lparr>prec = nat 2\<rparr>)))
   \<and> prec default_context = 28"
proof -
  have h1: "(1::int) \<le> 12" and h2: "(1::int) \<le> 2" by simp_all
  have T: "\<And>r ctx'. (arctan_py ''5'' 12 default_context = Some (Inr (r, ctx')) \<longrightarrow> prec ctx' = nat 12)
   \<and> (1 \<le> (12::int) \<longrightarrow>
         (\<exists>r. arctan_py ''5'' 12 default_context = Some (Inr (r, \<lparr>prec = nat 12\<rparr>)))
       \<and> (\<exists>r. arctan_py ''239'' 12 default_context = Some (Inr (r, \<lparr>prec = nat 12\<rparr>))))
   \<and> (1 \<le> (2::int) \<longrightarrow>
         (\<exists>v. calculate_pi 2 default_context = Some (Inr (v, \<lparr>prec = nat 2\<rparr>))))"
    by (rule context_left_modified)
  from T h1 obtain r where r: "arctan_py ''5'' 12 default_context = Some (Inr (r, \<lparr>prec = nat 12\<rparr>))"
    by blast
  with T have "prec \<lparr>prec = nat 12\<rparr> = nat 12" by simp
  with r have A: "\<exists>r ctx'. arctan_py ''5'' 12 default_context = Some (Inr (r, ctx')) \<and> prec ctx' = nat 12"
    by blast
  from T h1 have B: "\<exists>r. arctan_py ''239'' 12 default_context = Some (Inr (r, \<lparr>prec = nat 12\<rparr>))"
    by blast
  from T h2 have C: "\<exists>v. calculate_pi 2 default_context = Some (Inr (v, \<lparr>prec = nat 2\<rparr>))"
    by blast
  have D: "prec default_context = 28" by (simp add: default_context_def)
  from A B C D show ?thesis by (intro conjI)
qed


end
